theory Spec2Isabelle
  imports Complex_Main
begin

section \<open>Data model\<close>

text \<open>
  A JavaScript string is a sequence of UTF-16 code units; a code unit is modelled by its
  number. \<open>js\<close> reads an ASCII literal as such a string.
\<close>

type_synonym jsstring = "nat list"

definition js :: "string \<Rightarrow> jsstring" where
  "js cs = map of_char cs"

text \<open>\<^verbatim>\<open>interface SessionSender\<close> of the sender module; \<open>startTime\<close> is \<^verbatim>\<open>number | null\<close>.\<close>

record SessionSender =
  isActive :: bool
  totalSent :: int
  activeThreads :: nat
  startTime :: "int option"
  shouldStop :: bool
  sessionId :: jsstring

text \<open>
  The primary key of a row of the \<^verbatim>\<open>configs\<close> table is a uuid that the database generates
  at the insert. A row that was in the table at the start, or that the rest of the server
  has written, has the identifier it comes with; the rows that \<^verbatim>\<open>upsertConfig\<close> inserts are
  numbered in the order of their inserts, so that no two of them have the same identifier.
\<close>

datatype rowid = Present nat | Inserted nat

text \<open>
  A row of the \<^verbatim>\<open>configs\<close> table (shared/schema.ts), without its name and creation time.
  The table is read by session id (\<^verbatim>\<open>getConfig\<close> takes the first row of a session), so
  the store is a map from session ids to rows; an update names the row by the \<^verbatim>\<open>id\<close> that
  was read. \<^verbatim>\<open>total_sent\<close> is an \<^verbatim>\<open>integer\<close> column: a signed number of 32 bits.
\<close>

record Config =
  cfgId :: rowid
  cfgToken :: jsstring
  cfgMessage :: jsstring
  cfgChannelIds :: jsstring
  cfgDelay :: int
  cfgIsActive :: bool
  userWantsActive :: bool
  cfgTotalSent :: int

type_synonym sessions = "jsstring \<rightharpoonup> SessionSender"
type_synonym configs = "jsstring \<rightharpoonup> Config"

section \<open>DatabaseStorage\<close>

text \<open>
  Each storage call reads the session's row and, when there is one, updates it. The calls
  are modelled as taking effect at once; \<^verbatim>\<open>incrementSent\<close> is also given in its two
  halves, the read and the write, which the source separates by an \<^verbatim>\<open>await\<close>.
\<close>

definition integerMax :: int where
  "integerMax = 2147483647"

definition getConfig :: "configs \<Rightarrow> jsstring \<Rightarrow> Config option" where
  "getConfig db sid = db sid"

definition updateConfigStatus :: "configs \<Rightarrow> jsstring \<Rightarrow> bool \<Rightarrow> configs" where
  "updateConfigStatus db sid b =
     (case getConfig db sid of
        Some existing \<Rightarrow> db(sid \<mapsto> existing\<lparr>cfgIsActive := b\<rparr>)
      | None \<Rightarrow> db)"

definition setUserWantsActive :: "configs \<Rightarrow> jsstring \<Rightarrow> bool \<Rightarrow> configs" where
  "setUserWantsActive db sid active =
     (case getConfig db sid of
        Some existing \<Rightarrow> db(sid \<mapsto> existing\<lparr>userWantsActive := active\<rparr>)
      | None \<Rightarrow> db)"

text \<open>
  The write of \<^verbatim>\<open>incrementSent\<close>, with the row that its read has returned:
  \<^verbatim>\<open>update(configs).set({ totalSent: existing.totalSent + 1 }).where(eq(configs.id, existing.id))\<close>.
  It changes the row of that identifier if the table still holds it. A total above the
  range of the column makes the database reject the statement: the row keeps its value, and
  \<^verbatim>\<open>channelLoop\<close> discards the rejection (\<^verbatim>\<open>.catch(() => {})\<close>).
\<close>

definition incrementSent_write :: "configs \<Rightarrow> jsstring \<Rightarrow> Config option \<Rightarrow> configs" where
  "incrementSent_write db sid existing =
     (case existing of
        Some e \<Rightarrow>
          (case db sid of
             Some row \<Rightarrow>
               if cfgId row = cfgId e \<and> cfgTotalSent e + 1 \<le> integerMax
               then db(sid \<mapsto> row\<lparr>cfgTotalSent := cfgTotalSent e + 1\<rparr>)
               else db
           | None \<Rightarrow> db)
      | None \<Rightarrow> db)"

definition incrementSent :: "configs \<Rightarrow> jsstring \<Rightarrow> configs" where
  "incrementSent db sid = incrementSent_write db sid (getConfig db sid)"

text \<open>
  \<^verbatim>\<open>upsertConfig(sessionId, { token, message, channelIds, delay })\<close>: an existing row
  takes the four fields; a new row takes them with the defaults of the insert
  (\<^verbatim>\<open>data.delay || 30\<close>) and of the schema, and the identifier that the database
  generates for it, here the last argument.
\<close>

definition upsertConfig ::
  "configs \<Rightarrow> jsstring \<Rightarrow> jsstring \<Rightarrow> jsstring \<Rightarrow> jsstring \<Rightarrow> int \<Rightarrow> rowid \<Rightarrow> configs" where
  "upsertConfig db sid tok msg ids dly newId =
     (case getConfig db sid of
        Some existing \<Rightarrow>
          db(sid \<mapsto> existing\<lparr>cfgToken := tok, cfgMessage := msg, cfgChannelIds := ids, cfgDelay := dly\<rparr>)
      | None \<Rightarrow>
          db(sid \<mapsto> \<lparr>cfgId = newId, cfgToken = tok, cfgMessage = msg, cfgChannelIds = ids,
                       cfgDelay = (if dly = 0 then 30 else dly), cfgIsActive = False,
                       userWantsActive = False, cfgTotalSent = 0\<rparr>))"

section \<open>The session registry\<close>

definition newSession :: "jsstring \<Rightarrow> SessionSender" where
  "newSession sid =
     \<lparr>isActive = False, totalSent = 0, activeThreads = 0, startTime = None,
      shouldStop = False, sessionId = sid\<rparr>"

text \<open>\<^verbatim>\<open>getSession\<close> creates the record on first reference and returns it with the registry.\<close>

definition getSession :: "sessions \<Rightarrow> jsstring \<Rightarrow> SessionSender \<times> sessions" where
  "getSession ss sid =
     (case ss sid of
        Some s \<Rightarrow> (s, ss)
      | None \<Rightarrow> (newSession sid, ss(sid \<mapsto> newSession sid)))"

record Status =
  stIsActive :: bool
  stTotalSent :: int
  stActiveThreads :: nat
  stStartTime :: "int option"

definition statusOf :: "SessionSender \<Rightarrow> Status" where
  "statusOf s =
     \<lparr>stIsActive = isActive s, stTotalSent = totalSent s,
      stActiveThreads = activeThreads s, stStartTime = startTime s\<rparr>"

definition getStatus :: "sessions \<Rightarrow> jsstring \<Rightarrow> Status \<times> sessions" where
  "getStatus ss sid = (let (s, ss') = getSession ss sid in (statusOf s, ss'))"

definition getAllStatuses :: "sessions \<Rightarrow> (jsstring \<rightharpoonup> Status)" where
  "getAllStatuses ss = (\<lambda>sid. map_option statusOf (ss sid))"

section \<open>Parsing the destination identifiers\<close>

text \<open>
  \<^verbatim>\<open>channelIdsStr.split(/[,\n]/).map((id) => id.trim()).filter((id) => /^\d+$/.test(id))\<close>.
  The separators are the comma (44) and the line feed (10). \<^verbatim>\<open>trim\<close> removes the white
  space and line terminators of ECMAScript at both ends. \<^verbatim>\<open>\d\<close> is an ASCII digit and,
  without the multiline flag, \<^verbatim>\<open>^\<close> and \<^verbatim>\<open>$\<close> are the ends of the string.
\<close>

definition isSeparator :: "nat \<Rightarrow> bool" where
  "isSeparator c = (c = 44 \<or> c = 10)"

fun split_ids :: "jsstring \<Rightarrow> jsstring list" where
  "split_ids [] = [[]]"
| "split_ids (c # cs) =
     (if isSeparator c then [] # split_ids cs
      else (c # hd (split_ids cs)) # tl (split_ids cs))"

definition isWhiteSpace :: "nat \<Rightarrow> bool" where
  "isWhiteSpace c =
     (c = 9 \<or> c = 10 \<or> c = 11 \<or> c = 12 \<or> c = 13 \<or> c = 32 \<or> c = 160 \<or> c = 5760 \<or>
      (8192 \<le> c \<and> c \<le> 8202) \<or> c = 8232 \<or> c = 8233 \<or> c = 8239 \<or> c = 8287 \<or>
      c = 12288 \<or> c = 65279)"

definition trim :: "jsstring \<Rightarrow> jsstring" where
  "trim s = rev (dropWhile isWhiteSpace (rev (dropWhile isWhiteSpace s)))"

definition isDigit :: "nat \<Rightarrow> bool" where
  "isDigit c = (48 \<le> c \<and> c \<le> 57)"

definition allDigits :: "jsstring \<Rightarrow> bool" where
  "allDigits s = (s \<noteq> [] \<and> list_all isDigit s)"

definition parseChannelIds :: "jsstring \<Rightarrow> jsstring list" where
  "parseChannelIds channelIdsStr = filter allDigits (map trim (split_ids channelIdsStr))"

section \<open>Logs and results\<close>

text \<open>
  \<^verbatim>\<open>emitLog(sessionId, msg, level)\<close> hands the line to the log callback at once (its
  copy into the logs table is not modelled). A line is kept as its session, its message and
  its level; the messages are the templates of the source with their arguments. The
  \<^verbatim>\<open>catch\<close> of a run, with its line \<^verbatim>\<open>Sender error\<close>, has no counterpart: the calls of a run
  are modelled as not throwing.
\<close>

datatype level = Info | Warn | Success | Error

datatype start_error =
    AlreadyRunning      \<comment> \<open>\<^verbatim>\<open>Sender is already running\<close>\<close>
  | NoValidChannelIds   \<comment> \<open>\<^verbatim>\<open>No valid channel IDs provided\<close>\<close>
  | TokenRequired       \<comment> \<open>\<^verbatim>\<open>Token is required\<close>\<close>
  | MessageRequired     \<comment> \<open>\<^verbatim>\<open>Message content is required\<close>\<close>

datatype logmsg =
    NoPermission jsstring           \<comment> \<open>\<^verbatim>\<open>No permission for #chName - will retry later\<close>\<close>
  | NetworkError jsstring jsstring  \<comment> \<open>\<^verbatim>\<open>Network error on #chName: message\<close>\<close>
  | Delivered jsstring int          \<comment> \<open>\<^verbatim>\<open>Delivered to #chName [Total: n]\<close>\<close>
  | WaitingRetry jsstring int       \<comment> \<open>\<^verbatim>\<open>#chName waiting Ns before retry\<close>\<close>
  | ResolvedChannels "jsstring list"
  | SenderActive nat int            \<comment> \<open>\<^verbatim>\<open>Sender active - N channel(s), Ds delay each\<close>\<close>
  | AllLoopsEnded                   \<comment> \<open>\<^verbatim>\<open>All channel loops ended\<close>\<close>
  | AutoResumed                     \<comment> \<open>\<^verbatim>\<open>Auto-resumed from previous session\<close>\<close>
  | SystemInitialized               \<comment> \<open>\<^verbatim>\<open>System initialized - Protocol active\<close>\<close>
  | ConfigLine nat int              \<comment> \<open>\<^verbatim>\<open>Config: N target(s), Ds delay\<close>\<close>
  | TokenInvalidNotice              \<comment> \<open>\<^verbatim>\<open>TOKEN INVALID - Sender stopped. ... Please update your token and restart.\<close>\<close>
  | UnexpectedStop nat nat          \<comment> \<open>\<^verbatim>\<open>Unexpected stop - auto-restart #n in Ws...\<close>\<close>
  | AutoRestartCancelled            \<comment> \<open>\<^verbatim>\<open>Auto-restart cancelled - user stopped or config removed\<close>\<close>
  | AutoRestartWaiting              \<comment> \<open>\<^verbatim>\<open>Auto-restart waiting - incomplete config\<close>\<close>
  | AutoRestarting                  \<comment> \<open>\<^verbatim>\<open>Auto-restarting sender...\<close>\<close>
  | RestartFailed start_error       \<comment> \<open>\<^verbatim>\<open>Restart failed: error - will retry\<close>\<close>
  | ShutdownComplete                \<comment> \<open>\<^verbatim>\<open>System shutdown complete\<close>\<close>
  | AbortSignal                     \<comment> \<open>\<^verbatim>\<open>Abort signal received - shutting down...\<close>\<close>
  | PreviousSession                 \<comment> \<open>\<^verbatim>\<open>Previous active session detected - auto-resuming...\<close>\<close>

type_synonym log = "jsstring \<times> logmsg \<times> level"

text \<open>The result of a channel loop: \<^verbatim>\<open>"stopped" | "token_invalid" | "done"\<close>.\<close>

datatype outcome = Stopped | TokenInvalid | Done

section \<open>sendOneMessage\<close>

text \<open>
  What \<^verbatim>\<open>fetch\<close> gives: a response with its status and, for the body of a 429, the
  number under \<^verbatim>\<open>retry_after\<close> when the body parses and has one; or a rejection with
  its message. Arithmetic on JavaScript numbers is modelled exactly, over the rationals.
\<close>

datatype response = HttpResponse nat "rat option" | FetchError jsstring

record SendResult =
  sent :: bool
  cooldownMs :: int

definition responseOk :: "nat \<Rightarrow> bool" where
  "responseOk status = (200 \<le> status \<and> status \<le> 299)"

definition sendOneMessage_response :: "jsstring \<Rightarrow> jsstring \<Rightarrow> response \<Rightarrow> SendResult \<times> log list" where
  "sendOneMessage_response sid chName r =
     (case r of
        HttpResponse status body \<Rightarrow>
          if responseOk status then (\<lparr>sent = True, cooldownMs = 0\<rparr>, [])
          else if status = 429 then
            (let retryAfter = (case body of None \<Rightarrow> 5 | Some x \<Rightarrow> if x = 0 then 5 else x)
             in (\<lparr>sent = False, cooldownMs = \<lceil>retryAfter * 1000\<rceil> + 1000\<rparr>, []))
          else if status = 401 then (\<lparr>sent = False, cooldownMs = - 401\<rparr>, [])
          else if status = 403 then
            (\<lparr>sent = False, cooldownMs = - 1\<rparr>, [(sid, NoPermission chName, Warn)])
          else (\<lparr>sent = False, cooldownMs = 5000\<rparr>, [])
      | FetchError msg \<Rightarrow>
          (\<lparr>sent = False, cooldownMs = 5000\<rparr>, [(sid, NetworkError chName msg, Warn)]))"

text \<open>The whole call: with the cancellation flag set it returns before any request.\<close>

definition sendOneMessage ::
  "SessionSender \<Rightarrow> jsstring \<Rightarrow> jsstring \<Rightarrow> response \<Rightarrow> SendResult \<times> log list" where
  "sendOneMessage s sid chName r =
     (if shouldStop s then (\<lparr>sent = False, cooldownMs = 0\<rparr>, [])
      else sendOneMessage_response sid chName r)"

section \<open>channelLoop\<close>

definition rand :: "rat \<Rightarrow> rat \<Rightarrow> rat \<Rightarrow> rat" where
  "rand lo hi random = lo + random * (hi - lo)"

text \<open>
  One pass of the loop body from the point where \<^verbatim>\<open>sendOneMessage\<close> has returned, up
  to the next \<^verbatim>\<open>await\<close>: either the loop returns, or it sleeps for the given number of
  milliseconds with its new count of consecutive errors. The flag says whether
  \<^verbatim>\<open>storage.incrementSent\<close> was called.
\<close>

datatype loop_step = Return outcome | Sleep int nat

definition backoffMs :: "int \<Rightarrow> nat \<Rightarrow> int" where
  "backoffMs cooldown consecutiveErrors =
     (if cooldown > 0 then cooldown
      else if cooldown = - 1 then 60000
      else min (10000 * int consecutiveErrors) 120000)"

definition channelLoop_body ::
  "SessionSender \<Rightarrow> jsstring \<Rightarrow> jsstring \<Rightarrow> int \<Rightarrow> nat \<Rightarrow> SendResult \<Rightarrow> rat \<Rightarrow>
     SessionSender \<times> log list \<times> bool \<times> loop_step" where
  "channelLoop_body s sid chName delaySeconds consecutiveErrors result random =
     (if shouldStop s then (s, [], False, Return Stopped)
      else if cooldownMs result = - 401 then (s, [], False, Return TokenInvalid)
      else if sent result then
        (let s' = s\<lparr>totalSent := totalSent s + 1\<rparr>;
             waitSec = \<lceil>rand (of_int delaySeconds * (9 / 10)) (of_int delaySeconds * (11 / 10)) random\<rceil>
         in (s', [(sid, Delivered chName (totalSent s'), Success)], True,
             Sleep (waitSec * 1000) 0))
      else
        (let errors = consecutiveErrors + 1;
             waitMs = backoffMs (cooldownMs result) errors;
             waitSec = \<lceil>of_int waitMs / (1000 :: rat)\<rceil>
         in (s, (if waitSec > 5 then [(sid, WaitingRetry chName waitSec, Warn)] else []),
             False, Sleep waitMs errors)))"

section \<open>startSender: validation\<close>

text \<open>The arguments of a call of \<^verbatim>\<open>startSender\<close>.\<close>

record call =
  cSid :: jsstring
  cToken :: jsstring
  cMessage :: jsstring
  cChannelIdsStr :: jsstring
  cDelay :: int
  cIsRestore :: bool

text \<open>The test of the loop that waits for a session in shutdown, and the step it adds.\<close>

definition waitTest :: "SessionSender \<Rightarrow> nat \<Rightarrow> bool" where
  "waitTest s waited = (isActive s \<and> waited < 5000)"

definition waitStep :: nat where
  "waitStep = 300"

text \<open>
  The checks from \<^verbatim>\<open>if (s.isActive)\<close> to \<^verbatim>\<open>if (!message)\<close>, in the order of the
  source; the empty string is the falsy value of a string.
\<close>

definition startSender_validate ::
  "SessionSender \<Rightarrow> jsstring \<Rightarrow> jsstring \<Rightarrow> jsstring \<Rightarrow> start_error + jsstring list" where
  "startSender_validate s tok msg channelIdsStr =
     (if isActive s then Inl AlreadyRunning
      else
        (let channelIds = parseChannelIds channelIdsStr in
         if length channelIds = 0 then Inl NoValidChannelIds
         else if tok = [] then Inl TokenRequired
         else if msg = [] then Inl MessageRequired
         else Inr channelIds))"

definition startSender_commit :: "int \<Rightarrow> SessionSender \<Rightarrow> SessionSender" where
  "startSender_commit now s = s\<lparr>isActive := True, shouldStop := False, startTime := Some now\<rparr>"

text \<open>
  The wait loop on its own. The session record is shared, so what the loop reads at its
  \<open>k\<close>-th test is whatever the other activities have left there: \<open>obs k\<close>. The result is
  the number of tests passed and the time waited.
\<close>

function startSender_wait :: "(nat \<Rightarrow> SessionSender) \<Rightarrow> nat \<Rightarrow> nat \<Rightarrow> nat \<times> nat" where
  "startSender_wait obs k waited =
     (if waitTest (obs k) waited then startSender_wait obs (k + 1) (waited + waitStep)
      else (k, waited))"
  by pat_completeness auto
termination
  by (relation "measure (\<lambda>(obs, k, waited). 5000 - waited)") (auto simp: waitTest_def waitStep_def)

text \<open>
  \<^verbatim>\<open>startSender\<close> up to the point where it has either failed or marked the session
  active: the result, the time it waited, and the session record as it leaves it.
\<close>

definition startSender_sync ::
  "(nat \<Rightarrow> SessionSender) \<Rightarrow> int \<Rightarrow> call \<Rightarrow> (start_error + jsstring list) \<times> nat \<times> SessionSender" where
  "startSender_sync obs now c =
     (let (k, waited) =
            (if isActive (obs 0) \<and> shouldStop (obs 0) then startSender_wait obs 0 0 else (0, 0));
          s = obs k
      in case startSender_validate s (cToken c) (cMessage c) (cChannelIdsStr c) of
           Inl e \<Rightarrow> (Inl e, waited, s)
         | Inr channelIds \<Rightarrow> (Inr channelIds, waited, startSender_commit now s))"

section \<open>senderLoop and the end of a run\<close>

text \<open>The end of \<^verbatim>\<open>senderLoop\<close>, once \<^verbatim>\<open>Promise.all\<close> has the result of every loop.\<close>

definition senderLoop_join ::
  "SessionSender \<Rightarrow> jsstring \<Rightarrow> outcome list \<Rightarrow> SessionSender \<times> log list \<times> outcome" where
  "senderLoop_join s sid results =
     (if list_ex (\<lambda>r. r = TokenInvalid) results then (s\<lparr>shouldStop := True\<rparr>, [], TokenInvalid)
      else (s, [(sid, AllLoopsEnded, Warn)], Stopped))"

text \<open>The first lines of the \<^verbatim>\<open>finally\<close> block: the record and \<^verbatim>\<open>userWantedStop\<close>.\<close>

definition finalize :: "SessionSender \<Rightarrow> SessionSender \<times> bool" where
  "finalize s =
     (s\<lparr>isActive := False, activeThreads := 0, startTime := None, shouldStop := False\<rparr>,
      shouldStop s)"

section \<open>The restart loop\<close>

definition restartWait :: "nat \<Rightarrow> nat" where
  "restartWait retryNum = min (retryNum * 5) 60"

text \<open>
  The head of an iteration, entered with the count of the attempts made so far: the new
  count, the log line, and the sleep in milliseconds, or nothing when
  \<^verbatim>\<open>interruptibleSleep\<close> finds the cancellation flag set.
\<close>

definition restart_iter :: "SessionSender \<Rightarrow> jsstring \<Rightarrow> nat \<Rightarrow> log list \<times> (nat \<times> int) option" where
  "restart_iter s sid retryNum =
     (let n = retryNum + 1; waitTime = restartWait n
      in ([(sid, UnexpectedStop n waitTime, Warn)],
          if shouldStop s then None else Some (n, int waitTime * 1000)))"

datatype restart_decision = Cancel | Incomplete | Restart call

definition restart_decide :: "jsstring \<Rightarrow> Config option \<Rightarrow> restart_decision \<times> log list" where
  "restart_decide sid config =
     (case config of
        None \<Rightarrow> (Cancel, [(sid, AutoRestartCancelled, Warn)])
      | Some c \<Rightarrow>
          if \<not> userWantsActive c then (Cancel, [(sid, AutoRestartCancelled, Warn)])
          else if cfgToken c = [] \<or> cfgMessage c = [] \<or> cfgChannelIds c = [] then
            (Incomplete, [(sid, AutoRestartWaiting, Warn)])
          else
            (Restart \<lparr>cSid = sid, cToken = cfgToken c, cMessage = cfgMessage c,
                      cChannelIdsStr = cfgChannelIds c, cDelay = cfgDelay c, cIsRestore = True\<rparr>,
             [(sid, AutoRestarting, Success)]))"

section \<open>stopSender\<close>

text \<open>
  The part of \<^verbatim>\<open>stopSender\<close> before its \<^verbatim>\<open>await\<close>: whether the session was active, the
  registry and the log line. The whole call adds the write of the intent flag.
\<close>

definition stopSender_begin :: "sessions \<Rightarrow> jsstring \<Rightarrow> bool \<times> sessions \<times> log list" where
  "stopSender_begin ss sid =
     (let (s, ss1) = getSession ss sid in
      if \<not> isActive s then (False, ss1, [])
      else (True, ss1(sid \<mapsto> s\<lparr>shouldStop := True\<rparr>), [(sid, AbortSignal, Warn)]))"

definition stopSender :: "sessions \<Rightarrow> configs \<Rightarrow> jsstring \<Rightarrow> bool \<times> sessions \<times> configs \<times> log list" where
  "stopSender ss db sid =
     (let (success, ss1, lg) = stopSender_begin ss sid in
      if success then (True, ss1, setUserWantsActive db sid False, lg)
      else (False, ss1, db, lg))"

section \<open>The activities of the module and their interleaving\<close>

text \<open>
  The module runs on one thread: a piece of code runs without interruption from one
  \<^verbatim>\<open>await\<close> to the next, and between two such pieces any other activity may run. An
  activity that is suspended at an \<^verbatim>\<open>await\<close> is a \<open>task\<close>; it carries the local
  variables it needs when it resumes.

  A channel loop is suspended in the staggered sleep before it starts, in the request of
  \<^verbatim>\<open>sendOneMessage\<close> (with its count of consecutive errors), in the sleep after an attempt
  (with the count and the duration), or it has returned.
\<close>

datatype loop_pc = Stagger int | Sending nat | Sleeping nat int | Finished outcome

type_synonym loop = "jsstring \<times> loop_pc"

text \<open>Who awaits a call of \<^verbatim>\<open>startSender\<close>: a caller outside the module, or the restart
  loop in its attempt of the given number.\<close>

datatype caller = External | Supervisor nat

datatype task =
    StartWaiting call caller nat
      \<comment> \<open>\<^verbatim>\<open>startSender\<close> in the 300 ms sleep of its wait loop; the time waited so far\<close>
  | StartPersisting call caller "jsstring list" nat
      \<comment> \<open>\<^verbatim>\<open>startSender\<close> in the first, second or third storage call after it marked the
         session active; the parsed identifiers\<close>
  | Resolving call "jsstring list" "jsstring list"
      \<comment> \<open>\<^verbatim>\<open>senderLoop\<close> in \<^verbatim>\<open>fetchChannelName\<close>; the identifiers, the names so far\<close>
  | Joining call "loop list"
      \<comment> \<open>\<^verbatim>\<open>senderLoop\<close> in \<^verbatim>\<open>Promise.all\<close>, with its channel loops\<close>
  | SenderReturned jsstring outcome
      \<comment> \<open>\<^verbatim>\<open>senderLoop\<close> has returned; the run has not yet resumed\<close>
  | FinStatus jsstring outcome bool
      \<comment> \<open>the \<^verbatim>\<open>finally\<close> block in \<^verbatim>\<open>updateConfigStatus\<close>; the result, \<^verbatim>\<open>userWantedStop\<close>\<close>
  | FinIntent jsstring
      \<comment> \<open>the \<^verbatim>\<open>finally\<close> block in \<^verbatim>\<open>setUserWantsActive(sessionId, false)\<close>\<close>
  | SupSleep jsstring nat int
      \<comment> \<open>the restart loop in its sleep; \<^verbatim>\<open>retryNum\<close>, the duration in ms\<close>
  | SupRead jsstring nat
      \<comment> \<open>the restart loop in \<^verbatim>\<open>getConfig\<close>\<close>
  | StopPersisting jsstring
      \<comment> \<open>\<^verbatim>\<open>stopSender\<close> or \<^verbatim>\<open>stopAllSenders\<close> in \<^verbatim>\<open>setUserWantsActive\<close>\<close>
  | IncReading jsstring
      \<comment> \<open>\<^verbatim>\<open>incrementSent\<close> in its \<^verbatim>\<open>getConfig\<close>\<close>
  | IncWriting jsstring Config
      \<comment> \<open>\<^verbatim>\<open>incrementSent\<close> in its update, with the row it read\<close>
  | Ended

text \<open>
  The world: the registry, the configs table, the suspended tasks, and what the observers
  have been sent. The server installs as log callback
  \<^verbatim>\<open>(sessionId, msg, level) => { broadcastLog(...); broadcastStatus(sessionId); }\<close>, and
  \<^verbatim>\<open>broadcastStatus\<close> sends \<^verbatim>\<open>getStatus(sessionId)\<close>: every log line goes out with the
  status of its session as it is at that point of the code. \<open>nextId\<close> is the number of
  the rows that \<^verbatim>\<open>upsertConfig\<close> calls have been given an identifier for.
\<close>

record world =
  sessions :: sessions
  configs :: configs
  tasks :: "task list"
  logs :: "log list"
  broadcasts :: "(jsstring \<times> Status) list"
  nextId :: nat

text \<open>
  A function of the module holds the record that \<^verbatim>\<open>getSession\<close> gave it; records are
  never removed from the registry, so reading through \<open>session\<close> reads that record.
\<close>

definition session :: "world \<Rightarrow> jsstring \<Rightarrow> SessionSender" where
  "session w sid = fst (getSession (sessions w) sid)"

definition touch :: "jsstring \<Rightarrow> world \<Rightarrow> world" where
  "touch sid w = w\<lparr>sessions := snd (getSession (sessions w) sid)\<rparr>"

definition putSession :: "jsstring \<Rightarrow> SessionSender \<Rightarrow> world \<Rightarrow> world" where
  "putSession sid s w = w\<lparr>sessions := (sessions w)(sid \<mapsto> s)\<rparr>"

definition emitLog :: "log \<Rightarrow> world \<Rightarrow> world" where
  "emitLog l w =
     (let (st, ss1) = getStatus (sessions w) (fst l)
      in w\<lparr>sessions := ss1, logs := logs w @ [l], broadcasts := broadcasts w @ [(fst l, st)]\<rparr>)"

text \<open>The lines a piece of code emits, in their order.\<close>

definition emit :: "log list \<Rightarrow> world \<Rightarrow> world" where
  "emit lg w = fold emitLog lg w"

definition setConfigs :: "configs \<Rightarrow> world \<Rightarrow> world" where
  "setConfigs db w = w\<lparr>configs := db\<rparr>"

text \<open>The database generates an identifier: the next one of the supply is taken.\<close>

definition takeId :: "world \<Rightarrow> world" where
  "takeId w = w\<lparr>nextId := nextId w + 1\<rparr>"

subsection \<open>The restart loop\<close>

text \<open>The head of an iteration of \<^verbatim>\<open>while (true)\<close>, entered with \<^verbatim>\<open>retryNum\<close>.\<close>

definition restart_next :: "jsstring \<Rightarrow> nat \<Rightarrow> world \<Rightarrow> world \<times> task" where
  "restart_next sid retryNum w =
     (let (lg, r) = restart_iter (session w sid) sid retryNum
      in (emit lg w, case r of None \<Rightarrow> Ended | Some (n, ms) \<Rightarrow> SupSleep sid n ms))"

subsection \<open>startSender\<close>

text \<open>A failed call returns to its caller; the restart loop logs the error and goes on.\<close>

definition startSender_failed :: "call \<Rightarrow> caller \<Rightarrow> start_error \<Rightarrow> world \<Rightarrow> world \<times> task" where
  "startSender_failed c who e w =
     (case who of
        External \<Rightarrow> (w, Ended)
      | Supervisor n \<Rightarrow> restart_next (cSid c) n (emit [(cSid c, RestartFailed e, Warn)] w))"

definition startSender_check :: "int \<Rightarrow> call \<Rightarrow> caller \<Rightarrow> world \<Rightarrow> world \<times> task" where
  "startSender_check now c who w =
     (let s = session w (cSid c) in
      case startSender_validate s (cToken c) (cMessage c) (cChannelIdsStr c) of
        Inl e \<Rightarrow> startSender_failed c who e w
      | Inr channelIds \<Rightarrow>
          (putSession (cSid c) (startSender_commit now s) w, StartPersisting c who channelIds 0))"

definition startSender_enter :: "int \<Rightarrow> call \<Rightarrow> caller \<Rightarrow> world \<Rightarrow> world \<times> task" where
  "startSender_enter now c who w0 =
     (let w = touch (cSid c) w0; s = session w (cSid c) in
      if isActive s \<and> shouldStop s then
        (if waitTest s 0 then (w, StartWaiting c who 0) else startSender_check now c who w)
      else startSender_check now c who w)"

definition startSender_waited :: "int \<Rightarrow> call \<Rightarrow> caller \<Rightarrow> nat \<Rightarrow> world \<Rightarrow> world \<times> task" where
  "startSender_waited now c who waited w =
     (let waited' = waited + waitStep in
      if waitTest (session w (cSid c)) waited' then (w, StartWaiting c who waited')
      else startSender_check now c who w)"

subsection \<open>senderLoop\<close>

definition interruptibleSleep_begin :: "SessionSender \<Rightarrow> bool" where
  "interruptibleSleep_begin s = (\<not> shouldStop s)"

text \<open>\<^verbatim>\<open>names[i] || channelId\<close>.\<close>

definition chNameOf :: "jsstring list \<Rightarrow> jsstring list \<Rightarrow> nat \<Rightarrow> jsstring" where
  "chNameOf names channelIds i =
     (if i < length names \<and> names ! i \<noteq> [] then names ! i
      else if i < length channelIds then channelIds ! i else [])"

definition senderLoop_launch :: "call \<Rightarrow> jsstring list \<Rightarrow> jsstring list \<Rightarrow> world \<Rightarrow> world \<times> task" where
  "senderLoop_launch c channelIds names w =
     (let s = session w (cSid c);
          w1 = emit [(cSid c, ResolvedChannels names, Info),
                     (cSid c, SenderActive (length channelIds) (cDelay c), Success)] w;
          loops = map (\<lambda>i. (chNameOf names channelIds i,
                             if interruptibleSleep_begin s then Stagger (int i * 2000)
                             else Finished Stopped))
                    [0..<length channelIds]
      in (w1, Joining c loops))"

text \<open>The test of the \<^verbatim>\<open>for\<close> loop over the identifiers, with the names resolved so far.\<close>

definition senderLoop_next :: "call \<Rightarrow> jsstring list \<Rightarrow> jsstring list \<Rightarrow> world \<Rightarrow> world \<times> task" where
  "senderLoop_next c channelIds names w =
     (if length names < length channelIds then
        (if shouldStop (session w (cSid c)) then (w, SenderReturned (cSid c) Stopped)
         else (w, Resolving c channelIds names))
      else senderLoop_launch c channelIds names w)"

definition senderLoop_begin :: "call \<Rightarrow> jsstring list \<Rightarrow> world \<Rightarrow> world \<times> task" where
  "senderLoop_begin c channelIds w =
     (let s = session w (cSid c)
      in senderLoop_next c channelIds []
           (putSession (cSid c) (s\<lparr>activeThreads := length channelIds\<rparr>) w))"

text \<open>The storage calls of \<^verbatim>\<open>startSender\<close>, its two log lines and the launch of the run.\<close>

definition startSender_persisted :: "call \<Rightarrow> caller \<Rightarrow> jsstring list \<Rightarrow> nat \<Rightarrow> world \<Rightarrow> world \<times> task" where
  "startSender_persisted c who channelIds k w =
     (if k = 0 then
        (setConfigs (updateConfigStatus (configs w) (cSid c) True) w,
         StartPersisting c who channelIds 1)
      else if k = 1 then
        (setConfigs (setUserWantsActive (configs w) (cSid c) True) w,
         StartPersisting c who channelIds 2)
      else
        senderLoop_begin c channelIds
          (emit [(cSid c, (if cIsRestore c then AutoResumed else SystemInitialized), Success),
                 (cSid c, ConfigLine (length channelIds) (cDelay c), Info)]
             (setConfigs (upsertConfig (configs w) (cSid c) (cToken c) (cMessage c)
                            (cChannelIdsStr c) (cDelay c) (Inserted (nextId w))) (takeId w))))"

subsection \<open>The channel loops of a run\<close>

text \<open>
  What resumes a suspended activity: the timer of a sleep, the 200 ms check of
  \<^verbatim>\<open>interruptibleSleep\<close>, the answer to a request (with the value of \<^verbatim>\<open>Math.random()\<close>
  for the jitter), a resolved channel name, the completion of a storage call, or the
  continuation of a promise that is already settled.
\<close>

datatype input =
    TimerFired | PollFired | Fetched response rat | NameFetched jsstring | StorageDone | Continue

text \<open>
  The test of \<^verbatim>\<open>while (!s.shouldStop)\<close> followed by the call of \<^verbatim>\<open>sendOneMessage\<close>,
  which with the flag clear goes on to its request.
\<close>

definition channelLoop_top :: "SessionSender \<Rightarrow> nat \<Rightarrow> loop_pc" where
  "channelLoop_top s consecutiveErrors =
     (if shouldStop s then Finished Stopped else Sending consecutiveErrors)"

text \<open>The check of the interval in \<^verbatim>\<open>interruptibleSleep\<close>: \<open>False\<close> is resolved when the flag
  is set, and the caller returns \<^verbatim>\<open>"stopped"\<close>.\<close>

definition interruptibleSleep_poll :: "SessionSender \<Rightarrow> loop_pc \<Rightarrow> loop_pc" where
  "interruptibleSleep_poll s pc = (if shouldStop s then Finished Stopped else pc)"

definition channelLoop_fetched ::
  "call \<Rightarrow> jsstring \<Rightarrow> nat \<Rightarrow> response \<Rightarrow> rat \<Rightarrow> world \<Rightarrow> world \<times> loop_pc \<times> task list" where
  "channelLoop_fetched c chName consecutiveErrors r random w =
     (let (result, lg1) = sendOneMessage_response (cSid c) chName r;
          (s', lg2, inc, stp) =
             channelLoop_body (session w (cSid c)) (cSid c) chName (cDelay c)
               consecutiveErrors result random;
          w1 = emit (lg1 @ lg2) (putSession (cSid c) s' w)
      in (w1,
          (case stp of
             Return res \<Rightarrow> Finished res
           | Sleep ms errors \<Rightarrow>
               if interruptibleSleep_begin s' then Sleeping errors ms else Finished Stopped),
          (if inc then [IncReading (cSid c)] else [])))"

definition resume_loop ::
  "call \<Rightarrow> input \<Rightarrow> loop \<Rightarrow> world \<Rightarrow> (world \<times> loop \<times> task list) option" where
  "resume_loop c inp l w =
     (let s = session w (cSid c) in
      case (snd l, inp) of
        (Stagger ms, TimerFired) \<Rightarrow> Some (w, (fst l, channelLoop_top s 0), [])
      | (Stagger ms, PollFired) \<Rightarrow> Some (w, (fst l, interruptibleSleep_poll s (Stagger ms)), [])
      | (Sleeping n ms, TimerFired) \<Rightarrow> Some (w, (fst l, channelLoop_top s n), [])
      | (Sleeping n ms, PollFired) \<Rightarrow>
          Some (w, (fst l, interruptibleSleep_poll s (Sleeping n ms)), [])
      | (Sending n, Fetched r random) \<Rightarrow>
          (let (w1, pc, spawned) = channelLoop_fetched c (fst l) n r random w
           in Some (w1, (fst l, pc), spawned))
      | _ \<Rightarrow> None)"

text \<open>The results \<^verbatim>\<open>Promise.all\<close> resolves with, once every loop has returned.\<close>

definition loopResult :: "loop \<Rightarrow> outcome option" where
  "loopResult l = (case snd l of Finished res \<Rightarrow> Some res | _ \<Rightarrow> None)"

definition results :: "loop list \<Rightarrow> outcome list option" where
  "results loops = those (map loopResult loops)"

subsection \<open>Resuming a task\<close>

definition resume :: "int \<Rightarrow> input \<Rightarrow> task \<Rightarrow> world \<Rightarrow> (world \<times> task) option" where
  "resume now inp t w =
     (case (t, inp) of
        (StartWaiting c who waited, TimerFired) \<Rightarrow> Some (startSender_waited now c who waited w)
      | (StartPersisting c who channelIds k, StorageDone) \<Rightarrow>
          Some (startSender_persisted c who channelIds k w)
      | (Resolving c channelIds names, NameFetched name) \<Rightarrow>
          Some (senderLoop_next c channelIds (names @ [name]) w)
      | (Joining c loops, Continue) \<Rightarrow>
          (case results loops of
             None \<Rightarrow> None
           | Some rs \<Rightarrow>
               (let (s', lg, res) = senderLoop_join (session w (cSid c)) (cSid c) rs
                in Some (emit lg (putSession (cSid c) s' w), SenderReturned (cSid c) res)))
      | (SenderReturned sid res, Continue) \<Rightarrow>
          (let (s', userWantedStop) = finalize (session w sid)
           in Some (putSession sid s' w, FinStatus sid res userWantedStop))
      | (FinStatus sid res userWantedStop, StorageDone) \<Rightarrow>
          (let w1 = setConfigs (updateConfigStatus (configs w) sid False) w in
           if res = TokenInvalid then Some (w1, FinIntent sid)
           else if \<not> userWantedStop then Some (restart_next sid 0 w1)
           else Some (emit [(sid, ShutdownComplete, Warn)] w1, Ended))
      | (FinIntent sid, StorageDone) \<Rightarrow>
          Some (emit [(sid, TokenInvalidNotice, Error)]
                  (setConfigs (setUserWantsActive (configs w) sid False) w), Ended)
      | (SupSleep sid n ms, TimerFired) \<Rightarrow> Some (w, SupRead sid n)
      | (SupSleep sid n ms, PollFired) \<Rightarrow>
          Some (w, if shouldStop (session w sid) then Ended else SupSleep sid n ms)
      | (SupRead sid n, StorageDone) \<Rightarrow>
          (let (d, lg) = restart_decide sid (getConfig (configs w) sid); w1 = emit lg w in
           case d of
             Cancel \<Rightarrow> Some (w1, Ended)
           | Incomplete \<Rightarrow> Some (restart_next sid n w1)
           | Restart c \<Rightarrow> Some (startSender_enter now c (Supervisor n) w1))
      | (StopPersisting sid, StorageDone) \<Rightarrow>
          Some (setConfigs (setUserWantsActive (configs w) sid False) w, Ended)
      | (IncReading sid, StorageDone) \<Rightarrow>
          (case getConfig (configs w) sid of
             None \<Rightarrow> Some (w, Ended)
           | Some existing \<Rightarrow> Some (w, IncWriting sid existing))
      | (IncWriting sid existing, StorageDone) \<Rightarrow>
          Some (setConfigs (incrementSent_write (configs w) sid (Some existing)) w, Ended)
      | _ \<Rightarrow> None)"

subsection \<open>Events\<close>

text \<open>
  An event is a call of an exported function, a visit of one entry by the loop of
  \<^verbatim>\<open>stopAllSenders\<close> or of \<^verbatim>\<open>restoreAllSessions\<close> (with the row it took from its
  snapshot of the table), a write of the configs table by the rest of the server, or the
  resumption of a task or of one channel loop of a run. Each event comes with the value
  \<^verbatim>\<open>Date.now()\<close> has at that moment. \<open>step\<close> is \<open>None\<close> when the event cannot happen in
  the world: the task is not there, or it is not waiting for that input.
\<close>

datatype event =
    CallStart call
  | CallStop jsstring
  | StopAllVisit jsstring
  | RestoreVisit jsstring Config
  | CallGetStatus jsstring
  | ConfigEdit jsstring "Config option"
  | Resume nat input
  | ResumeLoop nat nat input

definition addTasks :: "task list \<Rightarrow> world \<Rightarrow> world" where
  "addTasks ts w = w\<lparr>tasks := tasks w @ ts\<rparr>"

definition setTask :: "nat \<Rightarrow> task \<Rightarrow> world \<Rightarrow> world" where
  "setTask i t w = w\<lparr>tasks := (tasks w)[i := t]\<rparr>"

definition restoreCall :: "jsstring \<Rightarrow> Config \<Rightarrow> call" where
  "restoreCall sid config =
     \<lparr>cSid = sid, cToken = cfgToken config, cMessage = cfgMessage config,
      cChannelIdsStr = cfgChannelIds config, cDelay = cfgDelay config, cIsRestore = True\<rparr>"

definition step :: "int \<Rightarrow> event \<Rightarrow> world \<Rightarrow> world option" where
  "step now e w =
     (case e of
        CallStart c \<Rightarrow>
          (let (w1, t) = startSender_enter now c External w in Some (addTasks [t] w1))
      | CallStop sid \<Rightarrow>
          (let (success, ss1, lg) = stopSender_begin (sessions w) sid
           in Some (addTasks (if success then [StopPersisting sid] else [])
                      (emit lg (w\<lparr>sessions := ss1\<rparr>))))
      | StopAllVisit sid \<Rightarrow>
          (case sessions w sid of
             None \<Rightarrow> None
           | Some s \<Rightarrow>
               if isActive s then
                 Some (addTasks [StopPersisting sid] (putSession sid (s\<lparr>shouldStop := True\<rparr>) w))
               else Some w)
      | RestoreVisit sid config \<Rightarrow>
          if \<not> userWantsActive config \<or> cfgToken config = [] \<or> cfgMessage config = [] \<or>
             cfgChannelIds config = [] \<or> sid = []
          then Some w
          else
            (let w1 = touch sid w;
                 w2 = putSession sid ((session w1 sid)\<lparr>totalSent := cfgTotalSent config\<rparr>) w1;
                 w3 = emit [(sid, PreviousSession, Success)] w2;
                 (w4, t) = startSender_enter now (restoreCall sid config) External w3
             in Some (addTasks [t] w4))
      | CallGetStatus sid \<Rightarrow> Some (w\<lparr>sessions := snd (getStatus (sessions w) sid)\<rparr>)
      | ConfigEdit sid row \<Rightarrow> Some (setConfigs ((configs w)(sid := row)) w)
      | Resume i inp \<Rightarrow>
          if i < length (tasks w) then
            (case resume now inp (tasks w ! i) w of
               None \<Rightarrow> None
             | Some (w1, t) \<Rightarrow> Some (setTask i t w1))
          else None
      | ResumeLoop i j inp \<Rightarrow>
          if i < length (tasks w) then
            (case tasks w ! i of
               Joining c loops \<Rightarrow>
                 if j < length loops then
                   (case resume_loop c inp (loops ! j) w of
                      None \<Rightarrow> None
                    | Some (w1, l, spawned) \<Rightarrow>
                        Some (addTasks spawned (setTask i (Joining c (loops[j := l])) w1)))
                 else None
             | _ \<Rightarrow> None)
          else None)"

text \<open>A run of the server: the events in their order. An event that cannot happen ends it.\<close>

fun exec :: "(int \<times> event) list \<Rightarrow> world \<Rightarrow> world option" where
  "exec [] w = Some w"
| "exec ((now, e) # evs) w = (case step now e w of None \<Rightarrow> None | Some w1 \<Rightarrow> exec evs w1)"

text \<open>The server starts with an empty registry, no task, and whatever the table holds.\<close>

definition initial :: "configs \<Rightarrow> world" where
  "initial db =
     \<lparr>sessions = Map.empty, configs = db, tasks = [], logs = [], broadcasts = [], nextId = 0\<rparr>"

inductive reachable :: "world \<Rightarrow> bool" where
  reachable_initial: "reachable (initial db)"
| reachable_step: "reachable w \<Longrightarrow> step now e w = Some w1 \<Longrightarrow> reachable w1"

section \<open>The invariant of the registry\<close>

text \<open>
  The session a task works for while it is a run in progress: from the moment
  \<^verbatim>\<open>startSender\<close> has marked the session active to the moment the \<^verbatim>\<open>finally\<close> block
  resets it.
\<close>

fun inRun :: "task \<Rightarrow> jsstring option" where
  "inRun (StartPersisting c who channelIds k) = Some (cSid c)"
| "inRun (Resolving c channelIds names) = Some (cSid c)"
| "inRun (Joining c loops) = Some (cSid c)"
| "inRun (SenderReturned sid res) = Some sid"
| "inRun _ = None"

definition runs :: "world \<Rightarrow> jsstring \<Rightarrow> nat" where
  "runs w sid = length (filter (\<lambda>t. inRun t = Some sid) (tasks w))"

definition active :: "world \<Rightarrow> jsstring \<Rightarrow> bool" where
  "active w sid = isActive (session w sid)"

definition idleOK :: "SessionSender \<Rightarrow> bool" where
  "idleOK s = (\<not> isActive s \<longrightarrow> activeThreads s = 0 \<and> startTime s = None \<and> \<not> shouldStop s)"

definition statusOK :: "Status \<Rightarrow> bool" where
  "statusOK st = (\<not> stIsActive st \<longrightarrow> stActiveThreads st = 0 \<and> stStartTime st = None)"

definition good :: "world \<Rightarrow> bool" where
  "good w = ((\<forall>sid. idleOK (session w sid)) \<and> (\<forall>b\<in>set (broadcasts w). statusOK (snd b)))"

definition blockOK :: "jsstring option \<Rightarrow> world \<Rightarrow> world \<times> task \<Rightarrow> bool" where
  "blockOK r w p =
     (tasks (fst p) = tasks w \<and>
      ((\<forall>sid. r = Some sid \<longrightarrow> active w sid) \<and> good w \<longrightarrow>
         good (fst p) \<and>
         (\<forall>sid. (if active (fst p) sid then 1 else 0) + (if r = Some sid then 1 else 0)
               = (if active w sid then 1::nat else 0) + (if inRun (snd p) = Some sid then 1 else 0))))"

definition inv :: "world \<Rightarrow> bool" where
  "inv w = (good w \<and> (\<forall>sid. runs w sid = (if active w sid then 1 else 0)))"

section \<open>Example runs\<close>

text \<open>
  A session with two channels. The first request of the first channel is answered 401; the
  second channel delivers one message and is answered 401 on its next attempt. The run
  then ends and is finalized.
\<close>

definition call0 :: call where
  "call0 = \<lparr>cSid = js ''a'', cToken = js ''t'', cMessage = js ''m'', cChannelIdsStr = js ''1,2'',
     cDelay = 10, cIsRestore = False\<rparr>"

definition rejectedRun :: "(int \<times> event) list" where
  "rejectedRun =
   [(100, CallStart call0),
    (101, Resume 0 StorageDone),
    (102, Resume 0 StorageDone),
    (103, Resume 0 StorageDone),
    (104, Resume 0 (NameFetched (js ''general''))),
    (105, Resume 0 (NameFetched [])),
    (106, ResumeLoop 0 0 TimerFired),
    (107, ResumeLoop 0 1 TimerFired),
    (108, ResumeLoop 0 0 (Fetched (HttpResponse 401 None) 0)),
    (109, ResumeLoop 0 1 (Fetched (HttpResponse 200 None) (1 / 2))),
    (110, ResumeLoop 0 1 TimerFired),
    (111, ResumeLoop 0 1 (Fetched (HttpResponse 401 None) 0)),
    (112, Resume 0 Continue),
    (113, Resume 0 Continue),
    (114, Resume 0 StorageDone),
    (115, Resume 0 StorageDone)]"

text \<open>
  A session that stays active with its cancellation flag set, and one that is in that state
  at the first \<open>n\<close> readings and idle from then on.
\<close>

definition stoppingSession :: SessionSender where
  "stoppingSession =
     \<lparr>isActive = True, totalSent = 0, activeThreads = 1, startTime = Some 0,
      shouldStop = True, sessionId = js ''a''\<rparr>"

definition drainingAfter :: "nat \<Rightarrow> nat \<Rightarrow> SessionSender" where
  "drainingAfter n k = (if k < n then stoppingSession else newSession (js ''a''))"

text \<open>A row that asks for a restart, and a world whose restart loop sleeps before its first
  attempt while the session is idle.\<close>

definition row0 :: Config where
  "row0 = \<lparr>cfgId = Present 0, cfgToken = js ''t'', cfgMessage = js ''m'', cfgChannelIds = js ''1,2'', cfgDelay = 10,
     cfgIsActive = False, userWantsActive = True, cfgTotalSent = 0\<rparr>"

definition restartingWorld :: world where
  "restartingWorld =
     \<lparr>sessions = [js ''a'' \<mapsto> newSession (js ''a'')], configs = [js ''a'' \<mapsto> row0],
      tasks = [SupSleep (js ''a'') 1 5000], logs = [], broadcasts = [], nextId = 0\<rparr>"

text \<open>
  A world with one task and one session, idle and with its flag clear, over a table that
  holds at most the row of that session; and a row that lacks its message.
\<close>

definition incompleteRow :: Config where
  "incompleteRow = row0\<lparr>cfgMessage := []\<rparr>"

definition supervised :: "task \<Rightarrow> Config option \<Rightarrow> world" where
  "supervised t row =
     \<lparr>sessions = [js ''a'' \<mapsto> newSession (js ''a'')],
      configs = (case row of None \<Rightarrow> Map.empty | Some r \<Rightarrow> [js ''a'' \<mapsto> r]),
      tasks = [t], logs = [], broadcasts = [], nextId = 0\<rparr>"

section \<open>Observing the sends of a run\<close>

text \<open>
  What an observer of a run can count. An event is an accepted send of a session when it is
  the answer to the request of one of the session's channel loops and \<^verbatim>\<open>sendOneMessage\<close>
  makes \<^verbatim>\<open>sent: true\<close> of it; it is a counted send when moreover the cancellation flag is
  clear as the loop examines the result.
\<close>

definition sendAccepted :: "jsstring \<Rightarrow> event \<Rightarrow> world \<Rightarrow> bool" where
  "sendAccepted sid e w =
     (case e of
        ResumeLoop i j inp \<Rightarrow>
          (case inp of
             Fetched r random \<Rightarrow>
               i < length (tasks w) \<and>
               (case tasks w ! i of
                  Joining c loops \<Rightarrow>
                    cSid c = sid \<and> j < length loops \<and>
                    (case snd (loops ! j) of
                       Sending n \<Rightarrow> sent (fst (sendOneMessage_response sid (fst (loops ! j)) r))
                     | _ \<Rightarrow> False)
                | _ \<Rightarrow> False)
           | _ \<Rightarrow> False)
      | _ \<Rightarrow> False)"

definition sendCounted :: "jsstring \<Rightarrow> event \<Rightarrow> world \<Rightarrow> bool" where
  "sendCounted sid e w = (sendAccepted sid e w \<and> \<not> shouldStop (session w sid))"

text \<open>The accepted and the counted sends of a session along a run.\<close>

fun accepted :: "jsstring \<Rightarrow> (int \<times> event) list \<Rightarrow> world \<Rightarrow> nat" where
  "accepted sid [] w = 0"
| "accepted sid ((now, e) # evs) w =
     (case step now e w of
        None \<Rightarrow> 0
      | Some w1 \<Rightarrow> (if sendAccepted sid e w then 1 else 0) + accepted sid evs w1)"

fun counted :: "jsstring \<Rightarrow> (int \<times> event) list \<Rightarrow> world \<Rightarrow> nat" where
  "counted sid [] w = 0"
| "counted sid ((now, e) # evs) w =
     (case step now e w of
        None \<Rightarrow> 0
      | Some w1 \<Rightarrow> (if sendCounted sid e w then 1 else 0) + counted sid evs w1)"

text \<open>
  The visit of \<^verbatim>\<open>restoreAllSessions\<close> to a session, which may overwrite the counter in memory
  with the stored total.
\<close>

definition seeds :: "jsstring \<Rightarrow> event \<Rightarrow> bool" where
  "seeds sid e = (case e of RestoreVisit sid' config \<Rightarrow> sid' = sid | _ \<Rightarrow> False)"

text \<open>
  Runs over a table that holds the row of the session: a start with two destinations up to
  the first request of either loop; then a stop followed by the answer 200 to a request in
  flight; or the answers 200 to both requests followed by the two calls of
  \<^verbatim>\<open>incrementSent\<close>, both reading before either writes.
\<close>

definition launch :: "(int \<times> event) list" where
  "launch =
   [(100, CallStart call0),
    (101, Resume 0 StorageDone),
    (102, Resume 0 StorageDone),
    (103, Resume 0 StorageDone),
    (104, Resume 0 (NameFetched (js ''general''))),
    (105, Resume 0 (NameFetched [])),
    (106, ResumeLoop 0 0 TimerFired),
    (107, ResumeLoop 0 1 TimerFired)]"

definition droppedSend :: "(int \<times> event) list" where
  "droppedSend =
     launch @
     [(108, CallStop (js ''a'')),
      (109, ResumeLoop 0 0 (Fetched (HttpResponse 200 None) (1 / 2)))]"

definition lostUpdate :: "(int \<times> event) list" where
  "lostUpdate =
     launch @
     [(108, ResumeLoop 0 0 (Fetched (HttpResponse 200 None) (1 / 2))),
      (109, ResumeLoop 0 1 (Fetched (HttpResponse 200 None) (1 / 2))),
      (110, Resume 1 StorageDone),
      (111, Resume 2 StorageDone),
      (112, Resume 1 StorageDone),
      (113, Resume 2 StorageDone)]"

text \<open>
  After the ninth event of \<open>rejectedRun\<close> the first loop has returned \<^verbatim>\<open>token_invalid\<close> and
  the second is in its first request. From there, \<open>k\<close> rounds of the second loop: its request
  is answered with a 200, the check of its sleep runs once, and its timer fires.
\<close>

definition deliveries :: "nat \<Rightarrow> (int \<times> event) list" where
  "deliveries k =
     concat (map (\<lambda>j. [(109 + 3 * int j, ResumeLoop 0 1 (Fetched (HttpResponse 200 None) (1 / 2))),
                        (110 + 3 * int j, ResumeLoop 0 1 PollFired),
                        (111 + 3 * int j, ResumeLoop 0 1 TimerFired)]) [0..<k])"

text \<open>
  The same start, one delivery of the second loop, and then a call of \<^verbatim>\<open>stopSender\<close> while
  that loop sleeps: the loop is resumed by the given input (the check of its sleep, or its
  timer), and the run goes on to its end.
\<close>

definition windDown :: "input \<Rightarrow> (int \<times> event) list" where
  "windDown inp =
     take 9 rejectedRun @
     [(109, ResumeLoop 0 1 (Fetched (HttpResponse 200 None) (1 / 2))),
      (110, CallStop (js ''a'')),
      (111, ResumeLoop 0 1 inp),
      (112, Resume 0 Continue),
      (113, Resume 0 Continue),
      (114, Resume 0 StorageDone),
      (115, Resume 0 StorageDone)]"

section \<open>Properties of the parser\<close>

lemma split_ids_nonempty: "split_ids s \<noteq> []"
  by (induction s) auto

text \<open>The two equations that determine the split: a piece ends at the first separator.\<close>

lemma split_ids_plain: "\<forall>c\<in>set p. \<not> isSeparator c \<Longrightarrow> split_ids p = [p]"
  by (induction p) auto

lemma split_ids_at_separator:
  "\<forall>c\<in>set p. \<not> isSeparator c \<Longrightarrow> isSeparator c \<Longrightarrow>
     split_ids (p @ c # rest) = p # split_ids rest"
  by (induction p) auto

text \<open>\<open>trim\<close> removes white space at the two ends and nothing else.\<close>

lemma trim_decompose:
  "\<exists>a b. p = a @ trim p @ b \<and> list_all isWhiteSpace a \<and> list_all isWhiteSpace b"
proof -
  define a where "a = takeWhile isWhiteSpace p"
  define q where "q = dropWhile isWhiteSpace p"
  define b where "b = rev (takeWhile isWhiteSpace (rev q))"
  have 1: "p = a @ q" by (simp add: a_def q_def)
  have "rev q = takeWhile isWhiteSpace (rev q) @ dropWhile isWhiteSpace (rev q)" by simp
  then have "q = rev (dropWhile isWhiteSpace (rev q)) @ b"
    unfolding b_def by (metis rev_append rev_rev_ident)
  then have 2: "q = trim p @ b" by (simp add: trim_def q_def)
  have 3: "list_all isWhiteSpace a" unfolding a_def list_all_iff by (metis set_takeWhileD)
  have 4: "list_all isWhiteSpace b" unfolding b_def list_all_iff by (metis set_takeWhileD set_rev)
  from 1 2 3 4 show ?thesis by blast
qed

lemma trim_ends:
  assumes ne: "trim p \<noteq> []"
  shows "\<not> isWhiteSpace (hd (trim p)) \<and> \<not> isWhiteSpace (last (trim p))"
proof -
  define q where "q = dropWhile isWhiteSpace p"
  define r where "r = dropWhile isWhiteSpace (rev q)"
  have t: "trim p = rev r" by (simp add: trim_def q_def r_def)
  with ne have rne: "r \<noteq> []" by simp
  then have hr: "\<not> isWhiteSpace (hd r)" unfolding r_def by (metis hd_dropWhile)
  have l: "last (trim p) = hd r" using rne t by (simp add: last_rev)
  have qne: "q \<noteq> []" using rne r_def by auto
  then have hq: "\<not> isWhiteSpace (hd q)" unfolding q_def by (metis hd_dropWhile)
  have "q = rev r @ rev (takeWhile isWhiteSpace (rev q))"
    by (metis r_def rev_append rev_rev_ident takeWhile_dropWhile_id)
  then have "hd q = hd (rev r)" using rne by (metis hd_append2 rev_is_Nil_conv)
  with hq hr l t show ?thesis by simp
qed

text \<open>
  Claim C8. The identifiers \<^verbatim>\<open>startSender\<close> keeps are the pieces of the input between
  commas and line feeds, trimmed, that are non-empty and made of the digits 0 to 9 only;
  the input \<^verbatim>\<open>"123, 456\n789abc"\<close> gives \<^verbatim>\<open>["123", "456"]\<close>; and a call that reaches the
  check with an idle session and an input that leaves no identifier fails with
  \<^verbatim>\<open>No valid channel IDs provided\<close>, whatever the token and the message are.
\<close>

theorem destination_parsing:
  "parseChannelIds (js ''123, 456\<newline>789abc'') = [js ''123'', js ''456'']
   \<and> (\<forall>t. t \<in> set (parseChannelIds str) \<longleftrightarrow>
          (\<exists>p\<in>set (split_ids str). t = trim p) \<and> t \<noteq> [] \<and> (\<forall>c\<in>set t. 48 \<le> c \<and> c \<le> 57))
   \<and> (\<not> isActive s \<and> parseChannelIds str = [] \<longrightarrow>
          startSender_validate s tok msg str = Inl NoValidChannelIds)
   \<and> (\<not> isActive (obs 0) \<and> parseChannelIds (cChannelIdsStr c) = [] \<longrightarrow>
          fst (startSender_sync obs now c) = Inl NoValidChannelIds)"
proof -
  have ex: "parseChannelIds (js ''123, 456\<newline>789abc'') = [js ''123'', js ''456'']"
    by (simp add: parseChannelIds_def js_def isSeparator_def trim_def isWhiteSpace_def
        allDigits_def isDigit_def)
  have mem: "\<forall>t. t \<in> set (parseChannelIds str) \<longleftrightarrow>
          (\<exists>p\<in>set (split_ids str). t = trim p) \<and> t \<noteq> [] \<and> (\<forall>c\<in>set t. 48 \<le> c \<and> c \<le> 57)"
    by (auto simp: parseChannelIds_def allDigits_def isDigit_def list_all_iff)
  have v: "\<not> isActive s \<and> parseChannelIds str = [] \<longrightarrow>
          startSender_validate s tok msg str = Inl NoValidChannelIds"
    by (simp add: startSender_validate_def)
  have w: "\<not> isActive (obs 0) \<and> parseChannelIds (cChannelIdsStr c) = [] \<longrightarrow>
          fst (startSender_sync obs now c) = Inl NoValidChannelIds"
    by (simp add: startSender_sync_def startSender_validate_def)
  from ex mem v w show ?thesis by blast
qed

theorem destination_parsing_witness:
  "js ''7'' \<in> set (parseChannelIds (js ''x1, 7''))
   \<and> \<not> isActive (newSession (js ''a''))
   \<and> parseChannelIds (js ''12a,,'') = []
   \<and> startSender_validate (newSession (js ''a'')) (js ''t'') (js ''m'') (js ''12a,,'') = Inl NoValidChannelIds
   \<and> fst (startSender_sync (\<lambda>k. newSession (js ''a'')) 0
        \<lparr>cSid = js ''a'', cToken = js ''t'', cMessage = js ''m'', cChannelIdsStr = js ''12a,,'',
         cDelay = 30, cIsRestore = False\<rparr>) = Inl NoValidChannelIds"
proof -
  have a: "\<not> isActive (newSession (js ''a''))" by (simp add: newSession_def)
  have b: "parseChannelIds (js ''12a,,'') = []"
    by (simp add: parseChannelIds_def js_def isSeparator_def trim_def isWhiteSpace_def
        allDigits_def isDigit_def)
  have c: "js ''7'' \<in> set (parseChannelIds (js ''x1, 7''))"
    by (simp add: parseChannelIds_def js_def isSeparator_def trim_def isWhiteSpace_def
        allDigits_def isDigit_def)
  note th = destination_parsing [of "js ''12a,,''" "newSession (js ''a'')" "js ''t''" "js ''m''"
      "\<lambda>k. newSession (js ''a'')"
      "\<lparr>cSid = js ''a'', cToken = js ''t'', cMessage = js ''m'', cChannelIdsStr = js ''12a,,'',
         cDelay = 30, cIsRestore = False\<rparr>" 0]
  from th a b c show ?thesis by simp
qed

section \<open>Runs and the active flag\<close>

lemma emitLog_fields:
  "tasks (emitLog l w) = tasks w" "configs (emitLog l w) = configs w"
  "logs (emitLog l w) = logs w @ [l]"
  "broadcasts (emitLog l w) = broadcasts w @ [(fst l, statusOf (session w (fst l)))]"
  "session (emitLog l w) sid = session w sid"
  by (auto simp: emitLog_def getStatus_def session_def getSession_def split_beta Let_def
      split: option.splits)

lemma emit_Nil [simp]: "emit [] w = w"
  by (simp add: emit_def)

lemma emit_Cons: "emit (l # lg) w = emit lg (emitLog l w)"
  by (simp add: emit_def)

lemma emit_append: "emit (lg @ lg') w = emit lg' (emit lg w)"
  by (simp add: emit_def)

lemma emit_fields [simp]:
  "tasks (emit lg w) = tasks w" "configs (emit lg w) = configs w"
  "logs (emit lg w) = logs w @ lg" "session (emit lg w) sid = session w sid"
  by (induction lg arbitrary: w) (simp_all add: emit_Cons emitLog_fields)

lemma broadcasts_emit:
  "broadcasts (emit lg w) = broadcasts w @ map (\<lambda>l. (fst l, statusOf (session w (fst l)))) lg"
  by (induction lg arbitrary: w) (simp_all add: emit_Cons emitLog_fields)

lemma tasks_prims [simp]:
  "tasks (touch sid w) = tasks w" "tasks (putSession sid s w) = tasks w"
  "tasks (setConfigs db w) = tasks w" "tasks (takeId w) = tasks w"
  by (simp_all add: touch_def putSession_def setConfigs_def takeId_def)

lemma session_prims [simp]:
  "session (touch sid w) sid' = session w sid'"
  "session (putSession sid s w) sid' = (if sid' = sid then s else session w sid')"
  "session (setConfigs db w) sid' = session w sid'"
  "session (takeId w) sid' = session w sid'"
  by (auto simp: session_def touch_def putSession_def setConfigs_def takeId_def getSession_def
      split: option.splits)

lemma configs_prims [simp]:
  "configs (touch sid w) = configs w" "configs (putSession sid s w) = configs w"
  "configs (setConfigs db w) = db" "configs (takeId w) = configs w"
  by (simp_all add: touch_def putSession_def setConfigs_def takeId_def)

lemma logs_prims [simp]:
  "logs (touch sid w) = logs w" "logs (putSession sid s w) = logs w"
  "logs (setConfigs db w) = logs w" "logs (takeId w) = logs w"
  by (simp_all add: touch_def putSession_def setConfigs_def takeId_def)

lemma broadcasts_prims [simp]:
  "broadcasts (touch sid w) = broadcasts w" "broadcasts (putSession sid s w) = broadcasts w"
  "broadcasts (setConfigs db w) = broadcasts w" "broadcasts (takeId w) = broadcasts w"
  by (simp_all add: touch_def putSession_def setConfigs_def takeId_def)

lemma statusOK_statusOf: "idleOK s \<Longrightarrow> statusOK (statusOf s)"
  by (simp add: statusOK_def statusOf_def idleOK_def)

lemma active_prims [simp]:
  "active (touch sid w) sid' = active w sid'"
  "active (putSession sid s w) sid' = (if sid' = sid then isActive s else active w sid')"
  "active (emit lg w) sid' = active w sid'"
  "active (setConfigs db w) sid' = active w sid'"
  "active (takeId w) sid' = active w sid'"
  by (simp_all add: active_def)

lemma good_prims [simp]:
  "good (touch sid w) = good w"
  "good (emit lg w) = good w"
  "good (setConfigs db w) = good w"
  "good (takeId w) = good w"
  by (auto simp: good_def broadcasts_emit statusOK_statusOf)

lemma good_putSession: "good w \<Longrightarrow> idleOK s \<Longrightarrow> good (putSession sid s w)"
  by (simp add: good_def)

lemma good_session: "good w \<Longrightarrow> idleOK (session w sid)"
  by (simp add: good_def)

lemma blockOK_prims [simp]:
  "blockOK r (touch sid w) p = blockOK r w p"
  "blockOK r (emit lg w) p = blockOK r w p"
  "blockOK r (setConfigs db w) p = blockOK r w p"
  "blockOK r (takeId w) p = blockOK r w p"
  by (simp_all add: blockOK_def)

lemma blockOK_same: "inRun t = r \<Longrightarrow> blockOK r w (w, t)"
  by (auto simp: blockOK_def)

lemma restart_next_ok: "blockOK None w (restart_next sid n w)"
  by (simp add: blockOK_def restart_next_def restart_iter_def Let_def split: option.splits)

lemma startSender_failed_ok: "blockOK None w (startSender_failed c who e w)"
  using restart_next_ok[of "emit [(cSid c, RestartFailed e, Warn)] w" "cSid c"]
  by (simp add: startSender_failed_def blockOK_same split: caller.splits)


lemma blockOK_pre:
  assumes "blockOK r w1 p" and "tasks w1 = tasks w"
    and "good w \<Longrightarrow> \<forall>sid. r = Some sid \<longrightarrow> active w sid \<Longrightarrow> good w1"
    and "\<And>sid. active w1 sid = active w sid"
  shows "blockOK r w p"
  using assms by (simp add: blockOK_def)

lemma blockOK_neutral:
  assumes "tasks w1 = tasks w" and "good w \<Longrightarrow> good w1"
    and "\<And>sid. active w1 sid = active w sid" and "inRun t = r"
  shows "blockOK r w (w1, t)"
  using assms by (auto simp: blockOK_def)

lemma startSender_check_ok: "blockOK None w (startSender_check now c who w)"
proof (cases "startSender_validate (session w (cSid c)) (cToken c) (cMessage c) (cChannelIdsStr c)")
  case (Inl e)
  then show ?thesis using startSender_failed_ok[of w c who e]
    by (simp add: startSender_check_def Let_def)
next
  case (Inr ids)
  then have na: "\<not> isActive (session w (cSid c))"
    by (auto simp: startSender_validate_def Let_def split: if_splits)
  have "good w \<Longrightarrow> good (putSession (cSid c) (startSender_commit now (session w (cSid c))) w)"
    by (rule good_putSession) (simp_all add: idleOK_def startSender_commit_def)
  with Inr na show ?thesis
    by (auto simp: startSender_check_def Let_def blockOK_def startSender_commit_def active_def)
qed

lemma startSender_enter_ok: "blockOK None w (startSender_enter now c who w)"
proof -
  have 1: "blockOK None w (startSender_check now c who (touch (cSid c) w))"
    by (rule blockOK_pre[OF startSender_check_ok]) simp_all
  have 2: "blockOK None w (touch (cSid c) w, StartWaiting c who 0)"
    by (rule blockOK_neutral) simp_all
  from 1 2 show ?thesis by (simp add: startSender_enter_def Let_def)
qed

lemma startSender_waited_ok: "blockOK None w (startSender_waited now c who waited w)"
  using startSender_check_ok[of w now c who]
  by (simp add: startSender_waited_def Let_def blockOK_same)

lemma senderLoop_launch_ok: "blockOK (Some (cSid c)) w (senderLoop_launch c ids names w)"
  unfolding senderLoop_launch_def Let_def by (rule blockOK_neutral) simp_all

lemma senderLoop_next_ok: "blockOK (Some (cSid c)) w (senderLoop_next c ids names w)"
  using senderLoop_launch_ok[of c w ids names]
  by (simp add: senderLoop_next_def blockOK_same)

lemma senderLoop_begin_ok: "blockOK (Some (cSid c)) w (senderLoop_begin c ids w)"
  unfolding senderLoop_begin_def Let_def
proof (rule blockOK_pre[OF senderLoop_next_ok])
  show "good (putSession (cSid c) ((session w (cSid c))\<lparr>activeThreads := length ids\<rparr>) w)"
    if "good w" "\<forall>sid. Some (cSid c) = Some sid \<longrightarrow> active w sid"
  proof (rule good_putSession)
    show "good w" by fact
    from that show "idleOK ((session w (cSid c))\<lparr>activeThreads := length ids\<rparr>)"
      by (simp add: idleOK_def active_def)
  qed
qed (simp_all add: active_def)

lemma startSender_persisted_ok: "blockOK (Some (cSid c)) w (startSender_persisted c who ids k w)"
proof -
  have 1: "blockOK (Some (cSid c)) w (senderLoop_begin c ids
          (emit [(cSid c, (if cIsRestore c then AutoResumed else SystemInitialized), Success),
                 (cSid c, ConfigLine (length ids) (cDelay c), Info)]
             (setConfigs (upsertConfig (configs w) (cSid c) (cToken c) (cMessage c)
                            (cChannelIdsStr c) (cDelay c) (Inserted (nextId w))) (takeId w))))"
    by (rule blockOK_pre[OF senderLoop_begin_ok]) simp_all
  have 2: "blockOK (Some (cSid c)) w (setConfigs db w, StartPersisting c who ids j)" for db j
    by (rule blockOK_neutral) simp_all
  from 1 2 show ?thesis by (simp add: startSender_persisted_def)
qed


lemma join_ok:
  "blockOK (Some (cSid c)) w
     (emit (fst (snd (senderLoop_join (session w (cSid c)) (cSid c) rs)))
        (putSession (cSid c) (fst (senderLoop_join (session w (cSid c)) (cSid c) rs)) w),
      SenderReturned (cSid c) (snd (snd (senderLoop_join (session w (cSid c)) (cSid c) rs))))"
proof (rule blockOK_pre[where ?w1.0 = "putSession (cSid c) (fst (senderLoop_join (session w (cSid c)) (cSid c) rs)) w"])
  let ?s = "fst (senderLoop_join (session w (cSid c)) (cSid c) rs)"
  have act: "isActive ?s = isActive (session w (cSid c))"
    by (simp add: senderLoop_join_def)
  show "blockOK (Some (cSid c)) (putSession (cSid c) ?s w)
     (emit (fst (snd (senderLoop_join (session w (cSid c)) (cSid c) rs))) (putSession (cSid c) ?s w),
      SenderReturned (cSid c) (snd (snd (senderLoop_join (session w (cSid c)) (cSid c) rs))))"
    by (rule blockOK_neutral) simp_all
  show "good (putSession (cSid c) ?s w)"
    if "good w" "\<forall>sid. Some (cSid c) = Some sid \<longrightarrow> active w sid"
  proof (rule good_putSession)
    show "good w" by fact
    from that show "idleOK ?s" by (simp add: idleOK_def active_def senderLoop_join_def)
  qed
  show "\<And>sid. active (putSession (cSid c) ?s w) sid = active w sid"
    using act by (simp add: active_def)
qed simp

lemma finalize_ok:
  "blockOK (Some sid) w (putSession sid (fst (finalize (session w sid))) w,
      FinStatus sid res (snd (finalize (session w sid))))"
proof -
  have "good w \<Longrightarrow> good (putSession sid (fst (finalize (session w sid))) w)"
    by (rule good_putSession) (simp_all add: idleOK_def finalize_def)
  then show ?thesis by (auto simp: blockOK_def finalize_def active_def)
qed

lemma resume_ok:
  assumes "resume now inp t w = Some p"
  shows "blockOK (inRun t) w p"
proof (cases t)
  case (StartWaiting c who waited)
  with assms show ?thesis using startSender_waited_ok[of w now c who waited]
    by (cases inp) (auto simp: resume_def)
next
  case (StartPersisting c who ids k)
  with assms show ?thesis using startSender_persisted_ok[of c w who ids k]
    by (cases inp) (auto simp: resume_def)
next
  case (Resolving c ids names)
  with assms show ?thesis using senderLoop_next_ok[of c w ids]
    by (cases inp) (auto simp: resume_def)
next
  case (Joining c loops)
  with assms show ?thesis using join_ok[of c w]
    by (cases inp) (auto simp: resume_def split_beta Let_def split: option.splits)
next
  case (SenderReturned sid res)
  with assms show ?thesis using finalize_ok[of sid w res]
    by (cases inp) (auto simp: resume_def split_beta Let_def)
next
  case (FinStatus sid res uws)
  have 1: "blockOK None w (restart_next sid 0 (setConfigs db w))" for db
    by (rule blockOK_pre[OF restart_next_ok]) simp_all
  have 2: "blockOK None w (setConfigs db w, FinIntent sid)" for db
    by (rule blockOK_neutral) simp_all
  have 3: "blockOK None w (emit lg (setConfigs db w), Ended)" for db lg
    by (rule blockOK_neutral) simp_all
  from FinStatus assms 1 2 3 show ?thesis
    by (cases inp) (auto simp: resume_def Let_def split: if_splits)
next
  case (FinIntent sid)
  have 3: "blockOK None w (emit lg (setConfigs db w), Ended)" for db lg
    by (rule blockOK_neutral) simp_all
  from FinIntent assms 3 show ?thesis
    by (cases inp) (auto simp: resume_def)
next
  case (SupSleep sid n ms)
  with assms show ?thesis
    by (cases inp) (auto simp: resume_def blockOK_same)
next
  case (SupRead sid n)
  have 1: "blockOK None w (restart_next sid n (emit lg w))" for lg
    by (rule blockOK_pre[OF restart_next_ok]) simp_all
  have 2: "blockOK None w (startSender_enter now c (Supervisor n) (emit lg w))" for lg c
    by (rule blockOK_pre[OF startSender_enter_ok]) simp_all
  have 3: "blockOK None w (emit lg w, Ended)" for lg
    by (rule blockOK_neutral) simp_all
  from SupRead assms 1 2 3 show ?thesis
    by (cases inp) (auto simp: resume_def Let_def split_beta split: restart_decision.splits)
next
  case (StopPersisting sid)
  have 3: "blockOK None w (setConfigs db w, Ended)" for db
    by (rule blockOK_neutral) simp_all
  from StopPersisting assms 3 show ?thesis
    by (cases inp) (auto simp: resume_def)
next
  case (IncReading sid)
  with assms show ?thesis
    by (cases inp) (auto simp: resume_def blockOK_same split: option.splits)
next
  case (IncWriting sid e)
  have 3: "blockOK None w (setConfigs db w, Ended)" for db
    by (rule blockOK_neutral) simp_all
  from IncWriting assms 3 show ?thesis
    by (cases inp) (auto simp: resume_def)
next
  case Ended
  with assms show ?thesis by (cases inp) (auto simp: resume_def)
qed


lemma filter_update_length:
  "i < length xs \<Longrightarrow>
     length (filter P (xs[i := y])) + (if P (xs ! i) then 1 else 0)
       = length (filter P xs) + (if P y then 1 else 0)"
proof (induction xs arbitrary: i)
  case Nil
  then show ?case by simp
next
  case (Cons x xs)
  then show ?case by (cases i) auto
qed

lemma runs_setTask:
  "i < length (tasks w) \<Longrightarrow>
     runs (setTask i t w) sid + (if inRun (tasks w ! i) = Some sid then 1 else 0)
       = runs w sid + (if inRun t = Some sid then 1 else 0)"
  using filter_update_length[of i "tasks w" "\<lambda>t. inRun t = Some sid" t]
  by (simp add: runs_def setTask_def)

lemma runs_addTasks:
  "runs (addTasks ts w) sid = runs w sid + length (filter (\<lambda>t. inRun t = Some sid) ts)"
  by (simp add: runs_def addTasks_def)

lemma runs_cong: "tasks w1 = tasks w \<Longrightarrow> runs w1 sid = runs w sid"
  by (simp add: runs_def)

lemma session_tasks_upd [simp]:
  "session (addTasks ts w) sid = session w sid" "session (setTask i t w) sid = session w sid"
  "broadcasts (addTasks ts w) = broadcasts w" "broadcasts (setTask i t w) = broadcasts w"
  by (simp_all add: session_def addTasks_def setTask_def)

lemma active_tasks_upd [simp]:
  "active (addTasks ts w) sid = active w sid" "active (setTask i t w) sid = active w sid"
  by (simp_all add: active_def)

lemma good_tasks_upd [simp]:
  "good (addTasks ts w) = good w" "good (setTask i t w) = good w"
  by (simp_all add: good_def)

lemma tasks_setTask [simp]: "tasks (setTask i t w) = (tasks w)[i := t]"
  by (simp add: setTask_def)

lemma tasks_addTasks [simp]: "tasks (addTasks ts w) = tasks w @ ts"
  by (simp add: addTasks_def)

lemma runs_positive: "i < length (tasks w) \<Longrightarrow> inRun (tasks w ! i) = Some sid \<Longrightarrow> 0 < runs w sid"
  unfolding runs_def by (rule length_pos_if_in_set) (auto simp: in_set_conv_nth)

lemma inv_block:
  assumes i: "inv w" and b: "blockOK r w (w1, t)"
    and r: "\<And>sid. r = Some sid \<Longrightarrow> active w sid"
    and n: "\<And>sid. runs w2 sid + (if r = Some sid then 1 else 0)
                  = runs w sid + (if inRun t = Some sid then 1 else 0)"
    and g: "good w2 = good w1" and a: "\<And>sid. active w2 sid = active w1 sid"
  shows "inv w2"
proof -
  from i have gw: "good w" and rw: "\<And>sid. runs w sid = (if active w sid then 1 else 0)"
    by (simp_all add: inv_def)
  from b r gw have g1: "good w1"
    and e: "\<And>sid. (if active w1 sid then 1 else 0) + (if r = Some sid then 1 else 0)
               = (if active w sid then 1::nat else 0) + (if inRun t = Some sid then 1 else 0)"
    by (simp_all add: blockOK_def)
  have "runs w2 sid = (if active w2 sid then 1 else 0)" for sid
    using n[of sid] e[of sid] rw[of sid] a[of sid] by (simp split: if_splits)
  with g g1 show ?thesis by (simp add: inv_def)
qed

lemma inv_resume:
  assumes i: "inv w" and l: "k < length (tasks w)" and s: "resume now inp (tasks w ! k) w = Some (w1, t)"
  shows "inv (setTask k t w1)"
proof (rule inv_block[OF i resume_ok[OF s]])
  fix sid
  assume "inRun (tasks w ! k) = Some sid"
  with l have "0 < runs w sid" by (rule runs_positive)
  with i show "active w sid" by (simp add: inv_def split: if_splits)
next
  fix sid
  from resume_ok[OF s] have tw: "tasks w1 = tasks w" by (simp add: blockOK_def)
  with l have "k < length (tasks w1)" by simp
  from runs_setTask[OF this, of t sid] tw runs_cong[OF tw, of sid]
  show "runs (setTask k t w1) sid + (if inRun (tasks w ! k) = Some sid then 1 else 0)
          = runs w sid + (if inRun t = Some sid then 1 else 0)"
    by simp
qed simp_all

lemma inv_spawn:
  assumes i: "inv w" and b: "blockOK None w (w1, t)"
  shows "inv (addTasks [t] w1)"
proof (rule inv_block[OF i b])
  fix sid
  from b have tw: "tasks w1 = tasks w" by (simp add: blockOK_def)
  show "runs (addTasks [t] w1) sid + (if None = Some sid then 1 else 0)
          = runs w sid + (if inRun t = Some sid then 1 else 0)"
    by (simp add: runs_addTasks runs_cong[OF tw])
qed simp_all


lemma inv_neutral:
  assumes i: "inv w" and t: "\<And>sid. runs w1 sid = runs w sid"
    and g: "good w \<Longrightarrow> good w1" and a: "\<And>sid. active w1 sid = active w sid"
  shows "inv w1"
  using assms by (simp add: inv_def)

lemma channelLoop_body_session:
  "isActive (fst (channelLoop_body s sid chName d n result random)) = isActive s
   \<and> activeThreads (fst (channelLoop_body s sid chName d n result random)) = activeThreads s
   \<and> startTime (fst (channelLoop_body s sid chName d n result random)) = startTime s
   \<and> shouldStop (fst (channelLoop_body s sid chName d n result random)) = shouldStop s"
  by (simp add: channelLoop_body_def Let_def)

lemma channelLoop_fetched_ok:
  assumes "channelLoop_fetched c chName n r random w = (w1, pc, spawned)"
  shows "tasks w1 = tasks w \<and> (good w \<longrightarrow> good w1) \<and> (\<forall>sid. active w1 sid = active w sid)
         \<and> (\<forall>t\<in>set spawned. inRun t = None)"
proof -
  define result where "result = fst (sendOneMessage_response (cSid c) chName r)"
  define s' where "s' = fst (channelLoop_body (session w (cSid c)) (cSid c) chName (cDelay c) n result random)"
  from assms obtain lg where w1: "w1 = emit lg (putSession (cSid c) s' w)"
    and sp: "spawned = [] \<or> spawned = [IncReading (cSid c)]"
    by (auto simp: channelLoop_fetched_def Let_def split_beta s'_def result_def split: if_splits)
  have f: "isActive s' = isActive (session w (cSid c))" "activeThreads s' = activeThreads (session w (cSid c))"
     "startTime s' = startTime (session w (cSid c))" "shouldStop s' = shouldStop (session w (cSid c))"
    unfolding s'_def using channelLoop_body_session by blast+
  have "good w \<Longrightarrow> good (putSession (cSid c) s' w)"
  proof (rule good_putSession)
    assume "good w"
    then have "idleOK (session w (cSid c))" by (rule good_session)
    with f show "idleOK s'" by (simp add: idleOK_def)
  qed
  with w1 sp f show ?thesis by (auto simp: active_def)
qed

lemma resume_loop_ok:
  assumes "resume_loop c inp l w = Some (w1, l1, spawned)"
  shows "tasks w1 = tasks w \<and> (good w \<longrightarrow> good w1) \<and> (\<forall>sid. active w1 sid = active w sid)
         \<and> (\<forall>t\<in>set spawned. inRun t = None)"
proof (cases "snd l")
  case (Sending n)
  show ?thesis
  proof (cases inp)
    case (Fetched r random)
    obtain w2 pc sp where e: "channelLoop_fetched c (fst l) n r random w = (w2, pc, sp)"
      by (cases "channelLoop_fetched c (fst l) n r random w") auto
    with assms Sending Fetched have "w1 = w2" "spawned = sp"
      by (simp_all add: resume_loop_def)
    with channelLoop_fetched_ok[OF e] show ?thesis by simp
  qed (use assms Sending in \<open>simp_all add: resume_loop_def\<close>)
qed (use assms in \<open>cases inp; simp add: resume_loop_def\<close>)+


lemma stopSender_begin_world:
  "w\<lparr>sessions := fst (snd (stopSender_begin (sessions w) sid))\<rparr> =
     (if isActive (session w sid)
      then putSession sid ((session w sid)\<lparr>shouldStop := True\<rparr>) (touch sid w)
      else touch sid w)"
  by (simp add: stopSender_begin_def session_def touch_def putSession_def split_beta Let_def)

lemma stopSender_begin_success:
  "fst (stopSender_begin ss sid) = isActive (fst (getSession ss sid))"
  by (simp add: stopSender_begin_def split_beta)

lemma good_stop: "isActive s \<Longrightarrow> good w1 \<Longrightarrow> good (putSession sid (s\<lparr>shouldStop := True\<rparr>) w1)"
  by (rule good_putSession) (simp_all add: idleOK_def)

lemma inv_stop:
  assumes "inv w"
  shows "inv (addTasks (if fst (stopSender_begin (sessions w) sid) then [StopPersisting sid] else [])
           (emit (snd (snd (stopSender_begin (sessions w) sid)))
              (w\<lparr>sessions := fst (snd (stopSender_begin (sessions w) sid))\<rparr>)))"
proof (rule inv_neutral[OF assms])
  show "good w \<Longrightarrow> good (addTasks (if fst (stopSender_begin (sessions w) sid) then [StopPersisting sid] else [])
           (emit (snd (snd (stopSender_begin (sessions w) sid)))
              (w\<lparr>sessions := fst (snd (stopSender_begin (sessions w) sid))\<rparr>)))"
    by (simp add: stopSender_begin_world good_stop)
qed (simp_all add: stopSender_begin_world runs_addTasks runs_def active_def)

lemma inv_stopAll:
  assumes "inv w" and "sessions w sid = Some s" and "isActive s"
  shows "inv (addTasks [StopPersisting sid] (putSession sid (s\<lparr>shouldStop := True\<rparr>) w))"
proof -
  from assms(2) have s: "session w sid = s" by (simp add: session_def getSession_def)
  show ?thesis
  proof (rule inv_neutral[OF assms(1)])
    show "good w \<Longrightarrow> good (addTasks [StopPersisting sid] (putSession sid (s\<lparr>shouldStop := True\<rparr>) w))"
      using good_stop[of s w sid] assms(3) by simp
  qed (use s assms(3) in \<open>simp_all add: runs_addTasks runs_def active_def\<close>)
qed

lemma inv_restore:
  assumes "inv w"
    and "startSender_enter now c External
           (emit lg (putSession sid ((session (touch sid w) sid)\<lparr>totalSent := n\<rparr>) (touch sid w))) = (w4, t)"
  shows "inv (addTasks [t] w4)"
proof (rule inv_spawn[OF assms(1)])
  let ?w3 = "emit lg (putSession sid ((session (touch sid w) sid)\<lparr>totalSent := n\<rparr>) (touch sid w))"
  have "blockOK None ?w3 (w4, t)" using startSender_enter_ok[of ?w3 now c External] assms(2) by simp
  then show "blockOK None w (w4, t)"
  proof (rule blockOK_pre)
    show "good ?w3" if "good w"
    proof -
      have "idleOK (session w sid)" using that by (rule good_session)
      then have "idleOK ((session w sid)\<lparr>totalSent := n\<rparr>)" by (simp add: idleOK_def)
      with that show ?thesis by (simp add: good_putSession)
    qed
  qed (simp_all add: active_def)
qed

lemma inv_loop:
  assumes i: "inv w" and k: "k < length (tasks w)" and j: "tasks w ! k = Joining c loops"
    and r: "resume_loop c inp l w = Some (w1, l1, spawned)"
  shows "inv (addTasks spawned (setTask k (Joining c loops1) w1))"
proof (rule inv_neutral[OF i])
  from resume_loop_ok[OF r] have tw: "tasks w1 = tasks w" and g: "good w \<longrightarrow> good w1"
    and a: "\<And>sid. active w1 sid = active w sid" and sp: "\<forall>t\<in>set spawned. inRun t = None"
    by simp_all
  from sp have f: "filter (\<lambda>t. inRun t = Some sid) spawned = []" for sid
    by (auto simp: filter_empty_conv)
  from k tw have k1: "k < length (tasks w1)" by simp
  show "runs (addTasks spawned (setTask k (Joining c loops1) w1)) sid = runs w sid" for sid
    using runs_setTask[OF k1, of "Joining c loops1" sid] tw j runs_cong[OF tw, of sid]
    by (simp add: runs_addTasks f)
  show "good w \<Longrightarrow> good (addTasks spawned (setTask k (Joining c loops1) w1))" using g by simp
  show "active (addTasks spawned (setTask k (Joining c loops1) w1)) sid = active w sid" for sid
    using a by simp
qed

lemma inv_step:
  assumes i: "inv w" and s: "step now e w = Some w1"
  shows "inv w1"
proof (cases e)
  case (CallStart c)
  obtain w2 t where e2: "startSender_enter now c External w = (w2, t)"
    by (cases "startSender_enter now c External w") auto
  with s CallStart have "w1 = addTasks [t] w2" by (simp add: step_def)
  moreover have "blockOK None w (w2, t)" using startSender_enter_ok[of w now c External] e2 by simp
  ultimately show ?thesis using inv_spawn[OF i] by simp
next
  case (CallStop sid)
  with s inv_stop[OF i, of sid] show ?thesis by (auto simp: step_def split_beta)
next
  case (StopAllVisit sid)
  with s i inv_stopAll[OF i, of sid] show ?thesis
    by (auto simp: step_def split: option.splits if_splits)
next
  case (RestoreVisit sid config)
  show ?thesis
  proof (cases "\<not> userWantsActive config \<or> cfgToken config = [] \<or> cfgMessage config = [] \<or>
             cfgChannelIds config = [] \<or> sid = []")
    case True
    with s RestoreVisit i show ?thesis by (auto simp: step_def)
  next
    case False
    obtain w4 t where e4: "startSender_enter now (restoreCall sid config) External
           (emit [(sid, PreviousSession, Success)]
              (putSession sid ((session (touch sid w) sid)\<lparr>totalSent := cfgTotalSent config\<rparr>) (touch sid w)))
           = (w4, t)"
      by (cases "startSender_enter now (restoreCall sid config) External
           (emit [(sid, PreviousSession, Success)]
              (putSession sid ((session (touch sid w) sid)\<lparr>totalSent := cfgTotalSent config\<rparr>) (touch sid w)))") auto
    with s RestoreVisit False have "w1 = addTasks [t] w4" by (simp add: step_def Let_def)
    with inv_restore[OF i e4] show ?thesis by simp
  qed
next
  case (CallGetStatus sid)
  with s have "w1 = touch sid w" by (simp add: step_def touch_def getStatus_def split_beta)
  with i show ?thesis by (simp add: inv_def runs_def)
next
  case (ConfigEdit sid row)
  with s have "w1 = setConfigs ((configs w)(sid := row)) w" by (simp add: step_def)
  with i show ?thesis by (simp add: inv_def runs_def)
next
  case (Resume k inp)
  with s obtain w2 t where "k < length (tasks w)" "resume now inp (tasks w ! k) w = Some (w2, t)"
    "w1 = setTask k t w2"
    by (auto simp: step_def split: if_splits option.splits)
  with inv_resume[OF i] show ?thesis by simp
next
  case (ResumeLoop k j inp)
  with s obtain c loops w2 l spawned where "k < length (tasks w)" "tasks w ! k = Joining c loops"
    "resume_loop c inp (loops ! j) w = Some (w2, l, spawned)"
    "w1 = addTasks spawned (setTask k (Joining c (loops[j := l])) w2)"
    by (auto simp: step_def split: if_splits option.splits task.splits)
  with inv_loop[OF i] show ?thesis by simp
qed

lemma inv_initial: "inv (initial db)"
  by (simp add: inv_def good_def idleOK_def runs_def active_def session_def getSession_def
      initial_def newSession_def)

lemma reachable_inv: "reachable w \<Longrightarrow> inv w"
  by (induction rule: reachable.induct) (auto intro: inv_initial inv_step)

section \<open>Evaluation and reachability\<close>

lemmas parse_defs = parseChannelIds_def js_def isSeparator_def trim_def isWhiteSpace_def
        allDigits_def isDigit_def

lemmas world_defs = session_def touch_def putSession_def emit_def emitLog_def setConfigs_def takeId_def
  addTasks_def setTask_def getSession_def getStatus_def statusOf_def newSession_def initial_def

lemmas storage_defs = getConfig_def updateConfigStatus_def setUserWantsActive_def
  incrementSent_write_def integerMax_def upsertConfig_def

lemmas block_defs = step_def resume_def resume_loop_def startSender_enter_def startSender_check_def
  startSender_validate_def startSender_commit_def startSender_failed_def startSender_waited_def
  startSender_persisted_def senderLoop_begin_def senderLoop_next_def senderLoop_launch_def
  senderLoop_join_def finalize_def restart_next_def restart_iter_def restart_decide_def restartWait_def
  stopSender_begin_def channelLoop_top_def channelLoop_fetched_def channelLoop_body_def
  sendOneMessage_response_def responseOk_def backoffMs_def rand_def interruptibleSleep_begin_def
  interruptibleSleep_poll_def chNameOf_def loopResult_def results_def waitTest_def waitStep_def
  restoreCall_def

lemma exec_reachable: "reachable w \<Longrightarrow> exec evs w = Some w1 \<Longrightarrow> reachable w1"
proof (induction evs arbitrary: w)
  case Nil
  then show ?case by simp
next
  case (Cons a evs)
  obtain now e where a: "a = (now, e)" by (cases a)
  with Cons.prems obtain w2 where s: "step now e w = Some w2" and r: "exec evs w2 = Some w1"
    by (auto split: option.splits)
  from Cons.prems(1) s have "reachable w2" by (rule reachable_step)
  with r show ?case by (rule Cons.IH[rotated])
qed

lemma getStatus_session: "fst (getStatus ss sid) = statusOf (fst (getSession ss sid))"
  by (simp add: getStatus_def split_beta)

text \<open>
  Claim C3. In every world the server can reach, a status that shows a session as not
  active shows no active threads and no start time: the status of every record of the
  registry as \<^verbatim>\<open>getAllStatuses\<close> gives it, the status \<^verbatim>\<open>getStatus\<close> gives for any session
  identifier (a fresh record included), and every status that was broadcast with a log line.
  The worlds reached are those after any sequence of calls and resumptions, so every piece
  of code that writes a record, the \<^verbatim>\<open>finally\<close> block of a run included, preserves it.
\<close>

theorem idle_status_invariant:
  assumes "reachable w"
  shows "(\<forall>sid st. getAllStatuses (sessions w) sid = Some st \<longrightarrow> \<not> stIsActive st \<longrightarrow>
            stActiveThreads st = 0 \<and> stStartTime st = None)
       \<and> (\<forall>sid. \<not> stIsActive (fst (getStatus (sessions w) sid)) \<longrightarrow>
            stActiveThreads (fst (getStatus (sessions w) sid)) = 0 \<and>
            stStartTime (fst (getStatus (sessions w) sid)) = None)
       \<and> (\<forall>b\<in>set (broadcasts w). \<not> stIsActive (snd b) \<longrightarrow>
            stActiveThreads (snd b) = 0 \<and> stStartTime (snd b) = None)"
proof -
  from assms have "inv w" by (rule reachable_inv)
  then have g: "good w" by (simp add: inv_def)
  then have s: "idleOK (session w sid)" for sid by (rule good_session)
  have 1: "\<not> stIsActive st \<longrightarrow> stActiveThreads st = 0 \<and> stStartTime st = None"
    if "getAllStatuses (sessions w) sid = Some st" for sid st
  proof -
    from that obtain r where r: "sessions w sid = Some r" and st: "st = statusOf r"
      by (auto simp: getAllStatuses_def)
    from r have "session w sid = r" by (simp add: session_def getSession_def)
    with s[of sid] st show ?thesis by (simp add: idleOK_def statusOf_def)
  qed
  have 2: "\<not> stIsActive (fst (getStatus (sessions w) sid)) \<longrightarrow>
            stActiveThreads (fst (getStatus (sessions w) sid)) = 0 \<and>
            stStartTime (fst (getStatus (sessions w) sid)) = None" for sid
    using s[of sid] by (simp add: getStatus_session session_def idleOK_def statusOf_def)
  have 3: "\<forall>b\<in>set (broadcasts w). \<not> stIsActive (snd b) \<longrightarrow>
            stActiveThreads (snd b) = 0 \<and> stStartTime (snd b) = None"
    using g by (simp add: good_def statusOK_def)
  from 1 2 3 show ?thesis by blast
qed

lemma rejectedRun_status:
  "map_option (\<lambda>w. (fst (getStatus (sessions w) (js ''a'')), length (broadcasts w)))
     (exec rejectedRun (initial Map.empty))
   = Some (\<lparr>stIsActive = False, stTotalSent = 1, stActiveThreads = 0, stStartTime = None\<rparr>, 6)"
  by (simp add: rejectedRun_def block_defs world_defs storage_defs parse_defs call0_def Let_def)

theorem idle_status_invariant_witness:
  "\<exists>w. exec rejectedRun (initial Map.empty) = Some w \<and> reachable w
     \<and> \<not> stIsActive (fst (getStatus (sessions w) (js ''a'')))
     \<and> stActiveThreads (fst (getStatus (sessions w) (js ''a''))) = 0
     \<and> stStartTime (fst (getStatus (sessions w) (js ''a''))) = None
     \<and> broadcasts w \<noteq> []"
proof -
  from rejectedRun_status obtain w where e: "exec rejectedRun (initial Map.empty) = Some w"
    and st: "fst (getStatus (sessions w) (js ''a'')) =
       \<lparr>stIsActive = False, stTotalSent = 1, stActiveThreads = 0, stStartTime = None\<rparr>"
    and b: "length (broadcasts w) = 6"
    by (cases "exec rejectedRun (initial Map.empty)") auto
  have r: "reachable w" using reachable_initial e by (rule exec_reachable)
  from idle_status_invariant[OF r] st b e r show ?thesis by auto
qed

section \<open>The end of a run whose token is rejected\<close>

lemma step_Resume:
  "i < length (tasks w) \<Longrightarrow> resume now inp (tasks w ! i) w = Some (w1, t) \<Longrightarrow>
     step now (Resume i inp) w = Some (setTask i t w1)"
  by (simp add: step_def)

lemma results_None: "results loops = None \<longleftrightarrow> (\<exists>l\<in>set loops. \<forall>r. snd l \<noteq> Finished r)"
proof (induction loops)
  case Nil
  then show ?case by (simp add: results_def)
next
  case (Cons l loops)
  have "loopResult l = None \<longleftrightarrow> (\<forall>r. snd l \<noteq> Finished r)"
    by (cases "snd l") (simp_all add: loopResult_def)
  with Cons show ?case by (auto simp: results_def split: option.splits)
qed

lemma nth_setTask [simp]: "i < length (tasks w) \<Longrightarrow> tasks (setTask i t w) ! i = t"
  by simp

lemma setTask_fields [simp]:
  "configs (setTask i t w) = configs w" "logs (setTask i t w) = logs w"
  "sessions (setTask i t w) = sessions w"
  by (simp_all add: setTask_def)

lemma setTask_setTask [simp]: "setTask i t (setTask i t' w) = setTask i t w"
  by (simp add: setTask_def)

lemma length_tasks_setTask [simp]: "length (tasks (setTask i t w)) = length (tasks w)"
  by simp

text \<open>
  A run is suspended in \<^verbatim>\<open>Promise.all\<close> until every channel loop it launched
  has returned: before that its continuation cannot run. Once all have returned and one of
  them returned \<^verbatim>\<open>token_invalid\<close>, the continuation sets \<open>shouldStop\<close> and
  \<^verbatim>\<open>senderLoop\<close> returns \<^verbatim>\<open>token_invalid\<close>; the \<^verbatim>\<open>finally\<close> block then resets the
  record, writes the status and the intent flag of the session's row as false (when the
  session has a row), and emits the error line that asks for a new token.
\<close>

theorem token_invalid_ends_run:
  assumes i: "i < length (tasks w)" and t: "tasks w ! i = Joining c loops"
  shows "(results loops = None \<longleftrightarrow> (\<exists>l\<in>set loops. \<forall>r. snd l \<noteq> Finished r))
     \<and> (results loops = None \<longrightarrow> step n1 (Resume i Continue) w = None)
     \<and> (\<forall>rs. results loops = Some rs \<and> TokenInvalid \<in> set rs \<longrightarrow>
          (\<exists>w1 w4. step n1 (Resume i Continue) w = Some w1
             \<and> shouldStop (session w1 (cSid c))
             \<and> tasks w1 ! i = SenderReturned (cSid c) TokenInvalid
             \<and> exec [(n2, Resume i Continue), (n3, Resume i StorageDone), (n4, Resume i StorageDone)] w1
                  = Some w4
             \<and> tasks w4 ! i = Ended
             \<and> \<not> isActive (session w4 (cSid c)) \<and> activeThreads (session w4 (cSid c)) = 0
             \<and> startTime (session w4 (cSid c)) = None \<and> \<not> shouldStop (session w4 (cSid c))
             \<and> (\<forall>row. configs w4 (cSid c) = Some row \<longrightarrow>
                    \<not> userWantsActive row \<and> \<not> cfgIsActive row)
             \<and> (configs w4 (cSid c) = None \<longleftrightarrow> configs w (cSid c) = None)
             \<and> logs w4 = logs w @ [(cSid c, TokenInvalidNotice, Error)]))"
proof (intro conjI allI impI)
  show "results loops = None \<longleftrightarrow> (\<exists>l\<in>set loops. \<forall>r. snd l \<noteq> Finished r)"
    by (rule results_None)
  show "step n1 (Resume i Continue) w = None" if "results loops = None"
    using i t that by (simp add: step_def resume_def)
next
  fix rs
  assume a: "results loops = Some rs \<and> TokenInvalid \<in> set rs"
  let ?sid = "cSid c"
  define w1 where "w1 = setTask i (SenderReturned ?sid TokenInvalid)
      (putSession ?sid ((session w ?sid)\<lparr>shouldStop := True\<rparr>) w)"
  define w2 where "w2 = setTask i (FinStatus ?sid TokenInvalid True)
      (putSession ?sid (fst (finalize (session w1 ?sid))) w1)"
  define w3 where "w3 = setTask i (FinIntent ?sid)
      (setConfigs (updateConfigStatus (configs w2) ?sid False) w2)"
  define w4 where "w4 = setTask i Ended
      (emit [(?sid, TokenInvalidNotice, Error)]
         (setConfigs (setUserWantsActive (configs w3) ?sid False) w3))"
  from a have j: "senderLoop_join (session w ?sid) ?sid rs
      = ((session w ?sid)\<lparr>shouldStop := True\<rparr>, [], TokenInvalid)"
    by (simp add: senderLoop_join_def list_ex_iff)
  have s1: "step n1 (Resume i Continue) w = Some w1"
    using i t a j by (simp add: step_def resume_def w1_def)
  have i1: "i < length (tasks w1)" using i by (simp add: w1_def)
  have t1: "tasks w1 ! i = SenderReturned ?sid TokenInvalid" using i by (simp add: w1_def)
  have f1: "shouldStop (session w1 ?sid)" by (simp add: w1_def)
  have s2: "step n2 (Resume i Continue) w1 = Some w2"
    using i1 t1 f1 by (simp add: step_def resume_def w2_def finalize_def)
  have i2: "i < length (tasks w2)" using i1 by (simp add: w2_def)
  have t2: "tasks w2 ! i = FinStatus ?sid TokenInvalid True" using i1 by (simp add: w2_def)
  have s3: "step n3 (Resume i StorageDone) w2 = Some w3"
    using i2 t2 by (simp add: step_def resume_def w3_def)
  have i3: "i < length (tasks w3)" using i2 by (simp add: w3_def)
  have t3: "tasks w3 ! i = FinIntent ?sid" using i2 by (simp add: w3_def)
  have s4: "step n4 (Resume i StorageDone) w3 = Some w4"
    using i3 t3 by (simp add: step_def resume_def w4_def)
  have e: "exec [(n2, Resume i Continue), (n3, Resume i StorageDone), (n4, Resume i StorageDone)] w1
      = Some w4"
    using s2 s3 s4 by simp
  have t4: "tasks w4 ! i = Ended" using i3 by (simp add: w4_def)
  have ses: "session w4 ?sid = fst (finalize (session w1 ?sid))"
    by (simp add: w4_def w3_def w2_def)
  have db: "configs w4 = setUserWantsActive (updateConfigStatus (configs w) ?sid False) ?sid False"
    by (simp add: w4_def w3_def w2_def w1_def)
  have lg: "logs w4 = logs w @ [(?sid, TokenInvalidNotice, Error)]"
    by (simp add: w4_def w3_def w2_def w1_def)
  have dbrow: "\<forall>row. configs w4 ?sid = Some row \<longrightarrow> \<not> userWantsActive row \<and> \<not> cfgIsActive row"
    unfolding db by (auto simp: setUserWantsActive_def updateConfigStatus_def getConfig_def
        split: option.splits)
  have dbnone: "configs w4 ?sid = None \<longleftrightarrow> configs w ?sid = None"
    unfolding db by (auto simp: setUserWantsActive_def updateConfigStatus_def getConfig_def
        split: option.splits)
  from s1 f1 t1 e t4 ses dbrow dbnone lg
  show "\<exists>w1 w4. step n1 (Resume i Continue) w = Some w1
             \<and> shouldStop (session w1 (cSid c))
             \<and> tasks w1 ! i = SenderReturned (cSid c) TokenInvalid
             \<and> exec [(n2, Resume i Continue), (n3, Resume i StorageDone), (n4, Resume i StorageDone)] w1
                  = Some w4
             \<and> tasks w4 ! i = Ended
             \<and> \<not> isActive (session w4 (cSid c)) \<and> activeThreads (session w4 (cSid c)) = 0
             \<and> startTime (session w4 (cSid c)) = None \<and> \<not> shouldStop (session w4 (cSid c))
             \<and> (\<forall>row. configs w4 (cSid c) = Some row \<longrightarrow>
                    \<not> userWantsActive row \<and> \<not> cfgIsActive row)
             \<and> (configs w4 (cSid c) = None \<longleftrightarrow> configs w (cSid c) = None)
             \<and> logs w4 = logs w @ [(cSid c, TokenInvalidNotice, Error)]"
    by (intro exI[of _ w1] exI[of _ w4]) (simp add: finalize_def)
qed


lemma rejectedRun_joining:
  "map_option tasks (exec (take 12 rejectedRun) (initial Map.empty))
   = Some [Joining call0 [(js ''general'', Finished TokenInvalid), (js ''2'', Finished TokenInvalid)],
           IncReading (js ''a'')]"
  by (simp add: rejectedRun_def block_defs world_defs storage_defs parse_defs call0_def Let_def)

theorem token_invalid_ends_run_witness:
  "\<exists>w w1 w4. exec (take 12 rejectedRun) (initial Map.empty) = Some w
     \<and> tasks w ! 0 = Joining call0 [(js ''general'', Finished TokenInvalid), (js ''2'', Finished TokenInvalid)]
     \<and> results [(js ''general'', Finished TokenInvalid), (js ''2'', Finished TokenInvalid)]
          = Some [TokenInvalid, TokenInvalid]
     \<and> step 112 (Resume 0 Continue) w = Some w1
     \<and> shouldStop (session w1 (js ''a''))
     \<and> exec [(113, Resume 0 Continue), (114, Resume 0 StorageDone), (115, Resume 0 StorageDone)] w1
          = Some w4
     \<and> \<not> isActive (session w4 (js ''a''))
     \<and> logs w4 = logs w @ [(js ''a'', TokenInvalidNotice, Error)]"
proof -
  let ?loops = "[(js ''general'', Finished TokenInvalid), (js ''2'', Finished TokenInvalid)]"
  from rejectedRun_joining obtain w where e: "exec (take 12 rejectedRun) (initial Map.empty) = Some w"
    and tw: "tasks w = [Joining call0 ?loops, IncReading (js ''a'')]"
    by (cases "exec (take 12 rejectedRun) (initial Map.empty)") auto
  from tw have i: "0 < length (tasks w)" and t: "tasks w ! 0 = Joining call0 ?loops" by simp_all
  have r: "results ?loops = Some [TokenInvalid, TokenInvalid]"
    by (simp add: results_def loopResult_def)
  have sid: "cSid call0 = js ''a''" by (simp add: call0_def)
  from token_invalid_ends_run[OF i t, of 112 113 114 115] r sid e t show ?thesis
    by auto
qed

section \<open>The checks of startSender and the exit on a rejected token\<close>

lemma startSender_wait_bound:
  "startSender_wait obs k waited = (k', waited') \<Longrightarrow> waited \<le> 5100 \<Longrightarrow> 300 dvd waited \<Longrightarrow>
     waited' \<le> 5100 \<and> 300 dvd waited' \<and> k \<le> k' \<and> waited' = waited + 300 * (k' - k)
     \<and> (\<forall>j. k \<le> j \<and> j < k' \<longrightarrow> isActive (obs j))
     \<and> (waited' < 5000 \<longrightarrow> \<not> isActive (obs k'))"
proof (induction obs k waited rule: startSender_wait.induct)
  case (1 obs k waited)
  show ?case
  proof (cases "waitTest (obs k) waited")
    case True
    then have a: "isActive (obs k)" and w: "waited < 5000" by (simp_all add: waitTest_def)
    from w "1.prems"(3) have w2: "waited + waitStep \<le> 5100" "300 dvd (waited + waitStep)"
      by (auto simp: waitStep_def elim!: dvdE)
    from True "1.prems"(1) have r: "startSender_wait obs (k + 1) (waited + waitStep) = (k', waited')"
      by (simp add: startSender_wait.simps[of obs k waited])
    from "1.IH"[OF True r w2] have ih: "waited' \<le> 5100" "300 dvd waited'" "k + 1 \<le> k'"
      "waited' = waited + waitStep + 300 * (k' - (k + 1))"
      "\<forall>j. k + 1 \<le> j \<and> j < k' \<longrightarrow> isActive (obs j)"
      "waited' < 5000 \<longrightarrow> \<not> isActive (obs k')"
      by blast+
    have act: "isActive (obs j)" if "k \<le> j" "j < k'" for j
    proof (cases "j = k")
      case True
      with a show ?thesis by simp
    next
      case False
      with that have "k + 1 \<le> j" by simp
      with ih(5) that show ?thesis by blast
    qed
    from ih(3,4) have eq: "waited' = waited + 300 * (k' - k)"
      by (simp add: waitStep_def algebra_simps)
    from ih(3) have le: "k \<le> k'" by simp
    from act have all: "\<forall>j. k \<le> j \<and> j < k' \<longrightarrow> isActive (obs j)" by blast
    from ih(1) ih(2) le eq all ih(6) show ?thesis by blast
  next
    case False
    with "1.prems"(1) have e: "k' = k" "waited' = waited"
      by (simp_all add: startSender_wait.simps[of obs k waited])
    with False "1.prems" show ?thesis by (auto simp: waitTest_def)
  qed
qed


lemma startSender_sync_wait:
  assumes "isActive (obs 0) \<and> shouldStop (obs 0)"
  shows "\<exists>k. startSender_wait obs 0 0 = (k, 300 * k) \<and> 1 \<le> k \<and> k \<le> 17
            \<and> (\<forall>j. j < k \<longrightarrow> isActive (obs j)) \<and> (k < 17 \<longrightarrow> \<not> isActive (obs k))"
proof -
  obtain k waited where e: "startSender_wait obs 0 0 = (k, waited)"
    by (cases "startSender_wait obs 0 0") auto
  from startSender_wait_bound[OF e] have b: "waited \<le> 5100" "waited = 300 * k"
    "\<forall>j. j < k \<longrightarrow> isActive (obs j)" "waited < 5000 \<longrightarrow> \<not> isActive (obs k)"
    by simp_all
  from b(4) assms have "k \<noteq> 0" using b(2) by (cases k) auto
  moreover from b(1,2) have "k \<le> 17" by simp
  moreover from b(2,4) have "k < 17 \<longrightarrow> \<not> isActive (obs k)" by auto
  ultimately show ?thesis using e b by auto
qed

text \<open>
  Claim C4, amended. The checks of \<^verbatim>\<open>startSender\<close> come in the order: session still
  active, no valid identifier, empty token, empty message; the first that fails gives the
  error. A call that finds the session active with the cancellation flag clear fails with
  \<^verbatim>\<open>Sender is already running\<close> without waiting. A call that finds it active with the
  flag set waits in steps of 300 ms while the session is still active and the time waited
  is below 5000 ms: at least one step and at most 17, that is up to 5100 ms; it then runs
  the checks on the record as it is after the wait, so a session still active gives
  \<^verbatim>\<open>Sender is already running\<close>.
\<close>

theorem start_validation_order:
  "(startSender_validate s tok msg str =
      (if isActive s then Inl AlreadyRunning
       else if parseChannelIds str = [] then Inl NoValidChannelIds
       else if tok = [] then Inl TokenRequired
       else if msg = [] then Inl MessageRequired
       else Inr (parseChannelIds str)))
   \<and> (isActive (obs 0) \<and> \<not> shouldStop (obs 0) \<longrightarrow>
         startSender_sync obs now c = (Inl AlreadyRunning, 0, obs 0))
   \<and> (\<not> isActive (obs 0) \<longrightarrow>
         fst (snd (startSender_sync obs now c)) = 0 \<and>
         fst (startSender_sync obs now c)
           = startSender_validate (obs 0) (cToken c) (cMessage c) (cChannelIdsStr c))
   \<and> (isActive (obs 0) \<and> shouldStop (obs 0) \<longrightarrow>
         (\<exists>k. 1 \<le> k \<and> k \<le> 17 \<and> fst (snd (startSender_sync obs now c)) = 300 * k
            \<and> (\<forall>j. j < k \<longrightarrow> isActive (obs j))
            \<and> (k < 17 \<longrightarrow> \<not> isActive (obs k))
            \<and> fst (startSender_sync obs now c)
                 = startSender_validate (obs k) (cToken c) (cMessage c) (cChannelIdsStr c)
            \<and> (isActive (obs k) \<longrightarrow> fst (startSender_sync obs now c) = Inl AlreadyRunning)))"
proof (intro conjI impI)
  show "startSender_validate s tok msg str =
      (if isActive s then Inl AlreadyRunning
       else if parseChannelIds str = [] then Inl NoValidChannelIds
       else if tok = [] then Inl TokenRequired
       else if msg = [] then Inl MessageRequired
       else Inr (parseChannelIds str))"
    by (simp add: startSender_validate_def Let_def)
  show "startSender_sync obs now c = (Inl AlreadyRunning, 0, obs 0)"
    if "isActive (obs 0) \<and> \<not> shouldStop (obs 0)"
    using that by (simp add: startSender_sync_def startSender_validate_def)
  show "fst (snd (startSender_sync obs now c)) = 0" if "\<not> isActive (obs 0)"
    using that by (simp add: startSender_sync_def Let_def split: sum.splits)
  show "fst (startSender_sync obs now c)
           = startSender_validate (obs 0) (cToken c) (cMessage c) (cChannelIdsStr c)"
    if "\<not> isActive (obs 0)"
    using that by (simp add: startSender_sync_def Let_def split: sum.splits)
  show "\<exists>k. 1 \<le> k \<and> k \<le> 17 \<and> fst (snd (startSender_sync obs now c)) = 300 * k
            \<and> (\<forall>j. j < k \<longrightarrow> isActive (obs j))
            \<and> (k < 17 \<longrightarrow> \<not> isActive (obs k))
            \<and> fst (startSender_sync obs now c)
                 = startSender_validate (obs k) (cToken c) (cMessage c) (cChannelIdsStr c)
            \<and> (isActive (obs k) \<longrightarrow> fst (startSender_sync obs now c) = Inl AlreadyRunning)"
    if a: "isActive (obs 0) \<and> shouldStop (obs 0)"
  proof -
    from startSender_sync_wait[of obs, OF a] obtain k where k: "startSender_wait obs 0 0 = (k, 300 * k)"
      "1 \<le> k" "k \<le> 17" "\<forall>j. j < k \<longrightarrow> isActive (obs j)" "k < 17 \<longrightarrow> \<not> isActive (obs k)"
      by blast
    from a k(1) have r: "fst (startSender_sync obs now c)
                 = startSender_validate (obs k) (cToken c) (cMessage c) (cChannelIdsStr c)"
      and w: "fst (snd (startSender_sync obs now c)) = 300 * k"
      by (simp_all add: startSender_sync_def Let_def split: sum.splits)
    have "isActive (obs k) \<longrightarrow> fst (startSender_sync obs now c) = Inl AlreadyRunning"
      unfolding r by (simp add: startSender_validate_def)
    with k r w show ?thesis by blast
  qed
qed

lemma drain2: "startSender_sync (drainingAfter 2) 7 call0
   = (Inr [js ''1'', js ''2''], 600,
      \<lparr>isActive = True, totalSent = 0, activeThreads = 0, startTime = Some 7,
       shouldStop = False, sessionId = js ''a''\<rparr>)"
  by (simp add: startSender_sync_def waitTest_def waitStep_def
      drainingAfter_def stoppingSession_def newSession_def startSender_validate_def
      startSender_commit_def call0_def parse_defs)

text \<open>
  The claim as stated bounds the wait by 5 seconds. With a session that stays active and
  stopping, the loop sleeps 17 times: 5100 ms.
\<close>

theorem start_wait_exceeds_five_seconds:
  "fst (snd (startSender_sync (\<lambda>k. stoppingSession) 7 call0)) = 5100
   \<and> fst (startSender_sync (\<lambda>k. stoppingSession) 7 call0) = Inl AlreadyRunning"
  by (simp add: startSender_sync_def waitTest_def waitStep_def
      stoppingSession_def startSender_validate_def)


theorem start_validation_order_witness:
  "isActive (drainingAfter 2 0) \<and> shouldStop (drainingAfter 2 0)
   \<and> (\<exists>k. 1 \<le> k \<and> k \<le> 17 \<and> fst (snd (startSender_sync (drainingAfter 2) 7 call0)) = 300 * k
          \<and> \<not> isActive (drainingAfter 2 k))
   \<and> fst (startSender_sync (drainingAfter 2) 7 call0) = Inr [js ''1'', js ''2'']
   \<and> startSender_validate (newSession (js ''a'')) [] (js ''m'') (js ''1'') = Inl TokenRequired"
proof -
  have a: "isActive (drainingAfter 2 0) \<and> shouldStop (drainingAfter 2 0)"
    by (simp add: drainingAfter_def stoppingSession_def)
  note th = start_validation_order[where obs = "drainingAfter 2" and now = 7 and c = call0
      and s = "newSession (js ''a'')" and tok = "[]" and msg = "js ''m''" and str = "js ''1''"]
  from th a obtain k where k: "1 \<le> k" "k \<le> 17"
    "fst (snd (startSender_sync (drainingAfter 2) 7 call0)) = 300 * k"
    "k < 17 \<longrightarrow> \<not> isActive (drainingAfter 2 k)"
    by blast
  from k(3) have "k = 2" by (simp add: drain2)
  with k have 1: "\<exists>k. 1 \<le> k \<and> k \<le> 17 \<and> fst (snd (startSender_sync (drainingAfter 2) 7 call0)) = 300 * k
          \<and> \<not> isActive (drainingAfter 2 k)"
    by auto
  have p: "parseChannelIds (js ''1'') = [js ''1'']" by (simp add: parse_defs)
  from th p have 2: "startSender_validate (newSession (js ''a'')) [] (js ''m'') (js ''1'') = Inl TokenRequired"
    by (simp add: newSession_def)
  from a 1 2 show ?thesis by (simp add: drain2)
qed

text \<open>
  Claim C2, amended. A 401 makes \<^verbatim>\<open>sendOneMessage\<close> return the cooldown -401, and the
  loop that examines this result returns at once: \<^verbatim>\<open>token_invalid\<close> when the cancellation
  flag is clear at that moment, \<^verbatim>\<open>stopped\<close> when it is set, since the loop tests the flag
  before it looks at the result. The record is left as it was and nothing is logged.
\<close>

theorem unauthorized_exit:
  "sendOneMessage_response sid chName (HttpResponse 401 body) = (\<lparr>sent = False, cooldownMs = - 401\<rparr>, [])
   \<and> channelLoop_body s sid chName d n \<lparr>sent = False, cooldownMs = - 401\<rparr> random
        = (s, [], False, Return (if shouldStop s then Stopped else TokenInvalid))
   \<and> (i < length (tasks w) \<and> tasks w ! i = Joining c loops \<and> j < length loops
        \<and> loops ! j = (chName, Sending n) \<longrightarrow>
        step now (ResumeLoop i j (Fetched (HttpResponse 401 body) random)) w
          = Some (setTask i
                    (Joining c (loops[j := (chName,
                        Finished (if shouldStop (session w (cSid c)) then Stopped else TokenInvalid))]))
                    (putSession (cSid c) (session w (cSid c)) w)))"
proof (intro conjI impI)
  show r: "sendOneMessage_response sid chName (HttpResponse 401 body)
      = (\<lparr>sent = False, cooldownMs = - 401\<rparr>, [])" for sid chName
    by (simp add: sendOneMessage_response_def responseOk_def)
  show b: "channelLoop_body s sid chName d n \<lparr>sent = False, cooldownMs = - 401\<rparr> random
        = (s, [], False, Return (if shouldStop s then Stopped else TokenInvalid))" for s sid chName d n
    by (simp add: channelLoop_body_def)
  assume a: "i < length (tasks w) \<and> tasks w ! i = Joining c loops \<and> j < length loops
        \<and> loops ! j = (chName, Sending n)"
  have f: "channelLoop_fetched c chName n (HttpResponse 401 body) random w
     = (putSession (cSid c) (session w (cSid c)) w,
        Finished (if shouldStop (session w (cSid c)) then Stopped else TokenInvalid), [])"
    by (simp add: channelLoop_fetched_def r b)
  from a f show "step now (ResumeLoop i j (Fetched (HttpResponse 401 body) random)) w
          = Some (setTask i
                    (Joining c (loops[j := (chName,
                        Finished (if shouldStop (session w (cSid c)) then Stopped else TokenInvalid))]))
                    (putSession (cSid c) (session w (cSid c)) w))"
    by (simp add: step_def resume_loop_def addTasks_def)
qed

text \<open>
  The claim as stated has the loop return \<^verbatim>\<open>token_invalid\<close> also when the flag is set;
  with the flag set and a 401 the loop returns \<^verbatim>\<open>stopped\<close>.
\<close>

theorem unauthorized_while_stopping:
  "snd (snd (snd (channelLoop_body stoppingSession (js ''a'') (js ''general'') 10 0
      (fst (sendOneMessage_response (js ''a'') (js ''general'') (HttpResponse 401 None))) 0)))
   = Return Stopped"
  by (simp add: channelLoop_body_def sendOneMessage_response_def responseOk_def stoppingSession_def)

lemma rejectedRun_sending:
  "map_option (\<lambda>w. (tasks w, shouldStop (session w (js ''a''))))
     (exec (take 8 rejectedRun) (initial Map.empty))
   = Some ([Joining call0 [(js ''general'', Sending 0), (js ''2'', Sending 0)]], False)"
  by (simp add: rejectedRun_def block_defs world_defs storage_defs parse_defs call0_def Let_def)

theorem unauthorized_exit_witness:
  "\<exists>w. exec (take 8 rejectedRun) (initial Map.empty) = Some w
     \<and> tasks w ! 0 = Joining call0 [(js ''general'', Sending 0), (js ''2'', Sending 0)]
     \<and> \<not> shouldStop (session w (js ''a''))
     \<and> map_option (\<lambda>w1. tasks w1 ! 0)
          (step 108 (ResumeLoop 0 0 (Fetched (HttpResponse 401 None) 0)) w)
        = Some (Joining call0 [(js ''general'', Finished TokenInvalid), (js ''2'', Sending 0)])"
proof -
  let ?loops = "[(js ''general'', Sending 0), (js ''2'', Sending 0)]"
  from rejectedRun_sending obtain w where e: "exec (take 8 rejectedRun) (initial Map.empty) = Some w"
    and tw: "tasks w = [Joining call0 ?loops]" and f: "\<not> shouldStop (session w (js ''a''))"
    by (cases "exec (take 8 rejectedRun) (initial Map.empty)") auto
  have sid: "cSid call0 = js ''a''" by (simp add: call0_def)
  from tw have h: "0 < length (tasks w) \<and> tasks w ! 0 = Joining call0 ?loops \<and> 0 < length ?loops
        \<and> ?loops ! 0 = (js ''general'', Sending 0)"
    by simp
  from unauthorized_exit[where w = w and i = 0 and j = 0 and c = call0 and loops = ?loops
      and chName = "js ''general''" and n = 0 and now = 108 and body = None and random = 0] h f sid
  have "step 108 (ResumeLoop 0 0 (Fetched (HttpResponse 401 None) 0)) w
      = Some (setTask 0 (Joining call0 (?loops[0 := (js ''general'', Finished TokenInvalid)]))
                (putSession (js ''a'') (session w (js ''a'')) w))"
    by simp
  with e tw f show ?thesis by simp
qed

section \<open>Backoff after an error, and stopSender\<close>

text \<open>
  What the loop does on a transient error: \<^verbatim>\<open>sendOneMessage\<close> gives the cooldown 5000 for
  any status other than a success, 429, 401 and 403 and for a rejected request, and a
  positive cooldown is the wait. The count of consecutive errors grows but decides nothing:
  the escalating wait is taken only for a cooldown that is zero or negative and neither -1
  nor -401.
\<close>

lemma transient_cooldown:
  assumes "\<not> responseOk status" "status \<noteq> 429" "status \<noteq> 401" "status \<noteq> 403" "\<not> shouldStop s"
  shows "channelLoop_body s sid chName d n
           (fst (sendOneMessage_response sid chName (HttpResponse status body))) random
         = (s, [], False, Sleep 5000 (n + 1))"
  using assms by (simp add: channelLoop_body_def sendOneMessage_response_def backoffMs_def)

lemma network_error_cooldown:
  assumes "\<not> shouldStop s"
  shows "channelLoop_body s sid chName d n
           (fst (sendOneMessage_response sid chName (FetchError m))) random
         = (s, [], False, Sleep 5000 (n + 1))"
  using assms by (simp add: channelLoop_body_def sendOneMessage_response_def backoffMs_def)

lemma sent_resets_count:
  assumes "\<not> shouldStop s" "responseOk status"
  shows "\<exists>ms. snd (snd (snd (channelLoop_body s sid chName d n
           (fst (sendOneMessage_response sid chName (HttpResponse status body))) random)))
         = Sleep ms 0"
  using assms by (simp add: channelLoop_body_def sendOneMessage_response_def Let_def)

lemma escalating_branch:
  "backoffMs 0 k = min (10000 * int k) 120000"
  by (simp add: backoffMs_def)

text \<open>
  Claim C9, on the code: three answers 500 in a row to an active session are followed by
  waits of 5000 ms each, with the counts 1, 2 and 3; not by 10, 20 and 30 seconds.
\<close>

theorem transient_errors_wait_five_seconds:
  "map (\<lambda>n. snd (snd (snd (channelLoop_body ((newSession (js ''a''))\<lparr>isActive := True\<rparr>)
                 (js ''a'') (js ''general'') 10 n
                 (fst (sendOneMessage_response (js ''a'') (js ''general'') (HttpResponse 500 None))) 0))))
     [0, 1, 2]
   = [Sleep 5000 1, Sleep 5000 2, Sleep 5000 3]"
  by (simp add: channelLoop_body_def sendOneMessage_response_def backoffMs_def responseOk_def
      newSession_def)

lemma getSession_idem: "fst (getSession (snd (getSession ss sid)) sid') = fst (getSession ss sid')"
  by (auto simp: getSession_def split: option.splits)

lemma getStatus_touch: "fst (getStatus (snd (getSession ss sid)) sid') = fst (getStatus ss sid')"
  by (simp add: getStatus_def split_beta getSession_idem)

text \<open>
  Claim C7. On an idle session \<^verbatim>\<open>stopSender\<close> returns \<^verbatim>\<open>success: false\<close>, logs nothing
  and leaves the table and every status as they were (the registry gains the fresh record
  of the session when it had none). On an active session it returns \<^verbatim>\<open>success: true\<close>,
  sets \<open>shouldStop\<close>, and writes the intent flag of the session's row as false. In the
  interleaving model the call is two steps, the flag and the log line and then the write;
  after both the session is still active and the tasks that were there, its run among
  them, are untouched: the call does not wait for the loops.
\<close>

theorem stop_sender:
  "(\<not> isActive (fst (getSession ss sid)) \<longrightarrow>
      stopSender ss db sid = (False, snd (getSession ss sid), db, [])
      \<and> (\<forall>sid'. fst (getStatus (snd (getSession ss sid)) sid') = fst (getStatus ss sid'))
      \<and> (ss sid \<noteq> None \<longrightarrow> snd (getSession ss sid) = ss))
   \<and> (ss sid = Some s \<and> isActive s \<longrightarrow>
      stopSender ss db sid
        = (True, ss(sid \<mapsto> s\<lparr>shouldStop := True\<rparr>), setUserWantsActive db sid False,
           [(sid, AbortSignal, Warn)])
      \<and> (\<forall>row. db sid = Some row \<longrightarrow>
            setUserWantsActive db sid False sid = Some (row\<lparr>userWantsActive := False\<rparr>))
      \<and> (\<forall>sid'. sid' \<noteq> sid \<longrightarrow> setUserWantsActive db sid False sid' = db sid'))
   \<and> (isActive (session w sid) \<longrightarrow>
      (\<exists>w1 w2. step now (CallStop sid) w = Some w1
         \<and> tasks w1 = tasks w @ [StopPersisting sid]
         \<and> shouldStop (session w1 sid) \<and> isActive (session w1 sid)
         \<and> configs w1 = configs w
         \<and> logs w1 = logs w @ [(sid, AbortSignal, Warn)]
         \<and> step now' (Resume (length (tasks w)) StorageDone) w1 = Some w2
         \<and> configs w2 = setUserWantsActive (configs w) sid False
         \<and> take (length (tasks w)) (tasks w2) = tasks w
         \<and> isActive (session w2 sid) \<and> shouldStop (session w2 sid)))"
proof (intro conjI impI allI)
  assume a: "\<not> isActive (fst (getSession ss sid))"
  then show "stopSender ss db sid = (False, snd (getSession ss sid), db, [])"
    by (simp add: stopSender_def stopSender_begin_def split_beta)
  show "fst (getStatus (snd (getSession ss sid)) sid') = fst (getStatus ss sid')" for sid'
    by (rule getStatus_touch)
  show "snd (getSession ss sid) = ss" if "ss sid \<noteq> None"
    using that by (auto simp: getSession_def)
next
  assume a: "ss sid = Some s \<and> isActive s"
  then show "stopSender ss db sid
        = (True, ss(sid \<mapsto> s\<lparr>shouldStop := True\<rparr>), setUserWantsActive db sid False,
           [(sid, AbortSignal, Warn)])"
    by (simp add: stopSender_def stopSender_begin_def getSession_def)
  show "setUserWantsActive db sid False sid = Some (row\<lparr>userWantsActive := False\<rparr>)"
    if "db sid = Some row" for row
    using that by (simp add: setUserWantsActive_def getConfig_def)
  show "setUserWantsActive db sid False sid' = db sid'" if "sid' \<noteq> sid" for sid'
    using that by (simp add: setUserWantsActive_def getConfig_def split: option.splits)
next
  assume a: "isActive (session w sid)"
  define w1 where "w1 = addTasks [StopPersisting sid]
      (emit [(sid, AbortSignal, Warn)]
         (putSession sid ((session w sid)\<lparr>shouldStop := True\<rparr>) (touch sid w)))"
  define w2 where "w2 = setTask (length (tasks w)) Ended
      (setConfigs (setUserWantsActive (configs w1) sid False) w1)"
  from a have b: "stopSender_begin (sessions w) sid
     = (True, (snd (getSession (sessions w) sid))(sid \<mapsto> (session w sid)\<lparr>shouldStop := True\<rparr>),
        [(sid, AbortSignal, Warn)])"
    by (simp add: stopSender_begin_def session_def split_beta)
  have ww: "w\<lparr>sessions := (snd (getSession (sessions w) sid))(sid \<mapsto> (session w sid)\<lparr>shouldStop := True\<rparr>)\<rparr>
      = putSession sid ((session w sid)\<lparr>shouldStop := True\<rparr>) (touch sid w)"
    by (simp add: putSession_def touch_def)
  have s1: "step now (CallStop sid) w = Some w1"
    by (simp add: step_def b ww w1_def)
  have t1: "tasks w1 = tasks w @ [StopPersisting sid]" by (simp add: w1_def)
  have s2: "step now' (Resume (length (tasks w)) StorageDone) w1 = Some w2"
    by (simp add: step_def t1 resume_def w2_def)
  have c1: "configs w1 = configs w" by (simp add: w1_def addTasks_def)
  have l1: "logs w1 = logs w @ [(sid, AbortSignal, Warn)]" by (simp add: w1_def addTasks_def)
  have e1: "session w1 sid = (session w sid)\<lparr>shouldStop := True\<rparr>" by (simp add: w1_def)
  have e2: "session w2 sid = (session w sid)\<lparr>shouldStop := True\<rparr>" by (simp add: w2_def e1)
  have c2: "configs w2 = setUserWantsActive (configs w) sid False" by (simp add: w2_def c1)
  have t2: "take (length (tasks w)) (tasks w2) = tasks w" by (simp add: w2_def t1)
  from s1 t1 e1 c1 l1 s2 c2 t2 e2 a
  show "\<exists>w1 w2. step now (CallStop sid) w = Some w1
         \<and> tasks w1 = tasks w @ [StopPersisting sid]
         \<and> shouldStop (session w1 sid) \<and> isActive (session w1 sid)
         \<and> configs w1 = configs w
         \<and> logs w1 = logs w @ [(sid, AbortSignal, Warn)]
         \<and> step now' (Resume (length (tasks w)) StorageDone) w1 = Some w2
         \<and> configs w2 = setUserWantsActive (configs w) sid False
         \<and> take (length (tasks w)) (tasks w2) = tasks w
         \<and> isActive (session w2 sid) \<and> shouldStop (session w2 sid)"
    by (intro exI[of _ w1] exI[of _ w2]) simp
qed


theorem stop_sender_witness:
  "\<not> isActive (fst (getSession Map.empty (js ''a'')))
   \<and> stopSender Map.empty [js ''a'' \<mapsto> row0] (js ''a'')
        = (False, [js ''a'' \<mapsto> newSession (js ''a'')], [js ''a'' \<mapsto> row0], [])
   \<and> isActive stoppingSession
   \<and> fst (stopSender [js ''a'' \<mapsto> stoppingSession] [js ''a'' \<mapsto> row0] (js ''a''))
   \<and> map_option userWantsActive
        (fst (snd (snd (stopSender [js ''a'' \<mapsto> stoppingSession] [js ''a'' \<mapsto> row0] (js ''a''))))
           (js ''a'')) = Some False
   \<and> (\<exists>w w1 w2. exec (take 8 rejectedRun) (initial Map.empty) = Some w
         \<and> isActive (session w (js ''a''))
         \<and> step 200 (CallStop (js ''a'')) w = Some w1
         \<and> shouldStop (session w1 (js ''a''))
         \<and> step 201 (Resume 1 StorageDone) w1 = Some w2
         \<and> tasks w2 ! 0 = Joining call0 [(js ''general'', Sending 0), (js ''2'', Sending 0)]
         \<and> isActive (session w2 (js ''a'')))"
proof -
  have i: "\<not> isActive (fst (getSession Map.empty (js ''a'')))"
    by (simp add: getSession_def newSession_def)
  have a: "[js ''a'' \<mapsto> stoppingSession] (js ''a'') = Some stoppingSession \<and> isActive stoppingSession"
    by (simp add: stoppingSession_def)
  have r: "[js ''a'' \<mapsto> row0] (js ''a'') = Some row0" by simp
  have "map_option (\<lambda>w. (tasks w, isActive (session w (js ''a''))))
     (exec (take 8 rejectedRun) (initial Map.empty))
   = Some ([Joining call0 [(js ''general'', Sending 0), (js ''2'', Sending 0)]], True)"
    by (simp add: rejectedRun_def block_defs world_defs storage_defs parse_defs call0_def Let_def)
  then obtain w where e: "exec (take 8 rejectedRun) (initial Map.empty) = Some w"
    and tw: "tasks w = [Joining call0 [(js ''general'', Sending 0), (js ''2'', Sending 0)]]"
    and act: "isActive (session w (js ''a''))"
    by (cases "exec (take 8 rejectedRun) (initial Map.empty)") auto
  note th = stop_sender[where ss = "Map.empty" and sid = "js ''a''" and db = "[js ''a'' \<mapsto> row0]"]
  note th2 = stop_sender[where ss = "[js ''a'' \<mapsto> stoppingSession]" and sid = "js ''a''"
      and db = "[js ''a'' \<mapsto> row0]" and s = stoppingSession and w = w and now = 200 and now' = 201]
  from th i have 1: "stopSender Map.empty [js ''a'' \<mapsto> row0] (js ''a'')
        = (False, [js ''a'' \<mapsto> newSession (js ''a'')], [js ''a'' \<mapsto> row0], [])"
    by (simp add: getSession_def)
  from th2 a r have 2: "stopSender [js ''a'' \<mapsto> stoppingSession] [js ''a'' \<mapsto> row0] (js ''a'')
        = (True, [js ''a'' \<mapsto> stoppingSession\<lparr>shouldStop := True\<rparr>],
           setUserWantsActive [js ''a'' \<mapsto> row0] (js ''a'') False, [(js ''a'', AbortSignal, Warn)])"
    and 3: "setUserWantsActive [js ''a'' \<mapsto> row0] (js ''a'') False (js ''a'')
        = Some (row0\<lparr>userWantsActive := False\<rparr>)"
    by simp_all
  from th2 act obtain w1 w2 where s: "step 200 (CallStop (js ''a'')) w = Some w1"
    "tasks w1 = tasks w @ [StopPersisting (js ''a'')]" "shouldStop (session w1 (js ''a''))"
    "step 201 (Resume (length (tasks w)) StorageDone) w1 = Some w2"
    "take (length (tasks w)) (tasks w2) = tasks w" "isActive (session w2 (js ''a''))"
    by blast
  from s(5) tw have t2: "tasks w2 ! 0 = Joining call0 [(js ''general'', Sending 0), (js ''2'', Sending 0)]"
    by (metis One_nat_def length_Cons list.size(3) nth_Cons_0 nth_take zero_less_one)
  from tw s(4) have s4: "step 201 (Resume 1 StorageDone) w1 = Some w2" by simp
  from i 1 a 2 3 e act s(1) s(3) s4 t2 s(6) show ?thesis by auto
qed

section \<open>Stopping an idle session\<close>

lemma exec_append:
  "exec (xs @ ys) w = (case exec xs w of None \<Rightarrow> None | Some w1 \<Rightarrow> exec ys w1)"
proof (induction xs arbitrary: w)
  case Nil
  then show ?case by simp
next
  case (Cons a xs)
  then show ?case by (cases a) (simp split: option.splits)
qed

lemma touch_touch: "touch sid (touch sid w) = touch sid w"
  by (auto simp: touch_def getSession_def split: option.splits)

lemma step_stop_idle:
  assumes "\<not> isActive (session w sid)"
  shows "step now (CallStop sid) w = Some (touch sid w)"
proof -
  from assms have "stopSender_begin (sessions w) sid = (False, snd (getSession (sessions w) sid), [])"
    by (simp add: stopSender_begin_def session_def split_beta)
  then show ?thesis by (simp add: step_def addTasks_def touch_def)
qed

lemma exec_stops_idle:
  assumes "\<not> isActive (session w sid)"
  shows "exec (map (\<lambda>t. (t, CallStop sid)) ts) w = Some (if ts = [] then w else touch sid w)"
  using assms
proof (induction ts arbitrary: w)
  case Nil
  then show ?case by simp
next
  case (Cons t ts)
  from Cons.prems have s: "step t (CallStop sid) w = Some (touch sid w)" by (rule step_stop_idle)
  from Cons.prems have "\<not> isActive (session (touch sid w) sid)" by simp
  from Cons.IH[OF this] s show ?case by (simp add: touch_touch)
qed

lemma reachable_idle_flag:
  assumes "reachable w" "\<not> isActive (session w sid)"
  shows "\<not> shouldStop (session w sid)"
proof -
  from assms(1) have "inv w" by (rule reachable_inv)
  then have "good w" by (simp add: inv_def)
  then have "idleOK (session w sid)" by (rule good_session)
  with assms(2) show ?thesis by (simp add: idleOK_def)
qed

text \<open>
  Claim C10. While a session is idle, a call of \<^verbatim>\<open>stopSender\<close> returns
  \<^verbatim>\<open>success: false\<close> and is no event at all for the rest of the server: the flag, the
  table, the tasks and the logs are as before (the registry gains the fresh record of the
  session when it had none), and so after any number of such calls. In a world the server
  can reach an idle session has its flag clear. Hence a restart loop that sleeps on an idle
  session with the flag clear is not interrupted by such calls: the check of its sleep
  finds the flag clear, its timer takes it to the reading of the row, and the row it
  decides on is the one that was there.
\<close>

theorem stop_while_idle:
  "\<not> isActive (session w sid) \<longrightarrow>
     \<not> fst (stopSender (sessions w) (configs w) sid)
   \<and> fst (snd (snd (stopSender (sessions w) (configs w) sid))) = configs w
   \<and> step now (CallStop sid) w = Some (touch sid w)
   \<and> exec (map (\<lambda>t. (t, CallStop sid)) ts) w = Some (if ts = [] then w else touch sid w)
   \<and> (\<forall>sid'. session (touch sid w) sid' = session w sid')
   \<and> configs (touch sid w) = configs w \<and> tasks (touch sid w) = tasks w
   \<and> logs (touch sid w) = logs w
   \<and> (reachable w \<longrightarrow> \<not> shouldStop (session w sid))
   \<and> (i < length (tasks w) \<and> tasks w ! i = SupSleep sid n ms \<and> \<not> shouldStop (session w sid) \<longrightarrow>
        (\<exists>w1. exec (map (\<lambda>t. (t, CallStop sid)) ts
                     @ [(now1, Resume i PollFired), (now2, Resume i TimerFired)]) w = Some w1
           \<and> tasks w1 ! i = SupRead sid n
           \<and> configs w1 = configs w
           \<and> (\<forall>sid'. session w1 sid' = session w sid')
           \<and> restart_decide sid (getConfig (configs w1) sid)
                = restart_decide sid (getConfig (configs w) sid)))"
proof (intro impI conjI allI)
  assume idle: "\<not> isActive (session w sid)"
  then have b: "stopSender_begin (sessions w) sid = (False, snd (getSession (sessions w) sid), [])"
    by (simp add: stopSender_begin_def session_def split_beta)
  show "\<not> fst (stopSender (sessions w) (configs w) sid)" by (simp add: stopSender_def b)
  show "fst (snd (snd (stopSender (sessions w) (configs w) sid))) = configs w"
    by (simp add: stopSender_def b)
  show "step now (CallStop sid) w = Some (touch sid w)" using idle by (rule step_stop_idle)
  show e: "exec (map (\<lambda>t. (t, CallStop sid)) ts) w = Some (if ts = [] then w else touch sid w)"
    using idle by (rule exec_stops_idle)
  show "session (touch sid w) sid' = session w sid'" for sid' by simp
  show "configs (touch sid w) = configs w" by simp
  show "tasks (touch sid w) = tasks w" by simp
  show "logs (touch sid w) = logs w" by simp
  show "\<not> shouldStop (session w sid)" if "reachable w" using that idle by (rule reachable_idle_flag)
  assume a: "i < length (tasks w) \<and> tasks w ! i = SupSleep sid n ms \<and> \<not> shouldStop (session w sid)"
  define w0 where "w0 = (if ts = [] then w else touch sid w)"
  have t0: "tasks w0 = tasks w" "configs w0 = configs w" "\<And>sid'. session w0 sid' = session w sid'"
    by (simp_all add: w0_def)
  have p: "step now1 (Resume i PollFired) w0 = Some (setTask i (SupSleep sid n ms) w0)"
    using a t0 by (simp add: step_def resume_def)
  have q: "step now2 (Resume i TimerFired) (setTask i (SupSleep sid n ms) w0)
      = Some (setTask i (SupRead sid n) w0)"
    using a t0 by (simp add: step_def resume_def)
  have "exec (map (\<lambda>t. (t, CallStop sid)) ts
                     @ [(now1, Resume i PollFired), (now2, Resume i TimerFired)]) w
      = Some (setTask i (SupRead sid n) w0)"
    using e p q by (simp add: exec_append w0_def)
  moreover have "tasks (setTask i (SupRead sid n) w0) ! i = SupRead sid n" using a t0 by simp
  ultimately show "\<exists>w1. exec (map (\<lambda>t. (t, CallStop sid)) ts
                     @ [(now1, Resume i PollFired), (now2, Resume i TimerFired)]) w = Some w1
           \<and> tasks w1 ! i = SupRead sid n
           \<and> configs w1 = configs w
           \<and> (\<forall>sid'. session w1 sid' = session w sid')
           \<and> restart_decide sid (getConfig (configs w1) sid)
                = restart_decide sid (getConfig (configs w) sid)"
    using t0 by (intro exI[of _ "setTask i (SupRead sid n) w0"]) simp
qed

lemma restartingWorld_restart:
  "map_option (\<lambda>w. (tasks w, isActive (session w (js ''a'')), logs w))
     (exec [(1, CallStop (js ''a'')), (2, CallStop (js ''a'')), (3, Resume 0 PollFired),
            (4, Resume 0 TimerFired), (5, Resume 0 StorageDone)] restartingWorld)
   = Some ([StartPersisting (restoreCall (js ''a'') row0) (Supervisor 1) [js ''1'', js ''2''] 0], True,
           [(js ''a'', AutoRestarting, Success)])"
  by (simp add: restartingWorld_def row0_def block_defs world_defs storage_defs parse_defs Let_def)

theorem stop_while_idle_witness:
  "\<not> isActive (session restartingWorld (js ''a''))
   \<and> \<not> fst (stopSender (sessions restartingWorld) (configs restartingWorld) (js ''a''))
   \<and> tasks restartingWorld ! 0 = SupSleep (js ''a'') 1 5000
   \<and> (\<exists>w1. exec [(1, CallStop (js ''a'')), (2, CallStop (js ''a'')), (3, Resume 0 PollFired),
                  (4, Resume 0 TimerFired)] restartingWorld = Some w1
         \<and> tasks w1 ! 0 = SupRead (js ''a'') 1
         \<and> configs w1 = configs restartingWorld)
   \<and> map_option (\<lambda>w. tasks w ! 0)
        (exec [(1, CallStop (js ''a'')), (2, CallStop (js ''a'')), (3, Resume 0 PollFired),
               (4, Resume 0 TimerFired), (5, Resume 0 StorageDone)] restartingWorld)
      = Some (StartPersisting (restoreCall (js ''a'') row0) (Supervisor 1) [js ''1'', js ''2''] 0)
   \<and> (\<exists>w. exec rejectedRun (initial Map.empty) = Some w \<and> reachable w
         \<and> \<not> isActive (session w (js ''a'')) \<and> \<not> shouldStop (session w (js ''a'')))"
proof -
  have idle: "\<not> isActive (session restartingWorld (js ''a''))"
    and flag: "\<not> shouldStop (session restartingWorld (js ''a''))"
    and tk: "0 < length (tasks restartingWorld)" "tasks restartingWorld ! 0 = SupSleep (js ''a'') 1 5000"
    by (simp_all add: restartingWorld_def session_def getSession_def newSession_def)
  note th = stop_while_idle[where w = restartingWorld and sid = "js ''a''" and ts = "[1, 2]"
      and i = 0 and n = 1 and ms = 5000 and ?now1.0 = 3 and ?now2.0 = 4]
  from th idle have 1: "\<not> fst (stopSender (sessions restartingWorld) (configs restartingWorld) (js ''a''))"
    by blast
  have l: "map (\<lambda>t. (t, CallStop (js ''a''))) [1, 2] @ [(3, Resume 0 PollFired), (4, Resume 0 TimerFired)]
      = [(1, CallStop (js ''a'')), (2, CallStop (js ''a'')), (3, Resume 0 PollFired),
         (4, Resume 0 TimerFired)]"
    by simp
  from th idle flag tk have "\<exists>w1. exec (map (\<lambda>t. (t, CallStop (js ''a''))) [1, 2]
           @ [(3, Resume 0 PollFired), (4, Resume 0 TimerFired)]) restartingWorld = Some w1
         \<and> tasks w1 ! 0 = SupRead (js ''a'') 1
         \<and> configs w1 = configs restartingWorld"
    by blast
  then have 2: "\<exists>w1. exec [(1, CallStop (js ''a'')), (2, CallStop (js ''a'')), (3, Resume 0 PollFired),
                  (4, Resume 0 TimerFired)] restartingWorld = Some w1
         \<and> tasks w1 ! 0 = SupRead (js ''a'') 1
         \<and> configs w1 = configs restartingWorld"
    unfolding l .
  have "map_option (\<lambda>w. (isActive (session w (js ''a'')), shouldStop (session w (js ''a''))))
     (exec rejectedRun (initial Map.empty)) = Some (False, False)"
    by (simp add: rejectedRun_def block_defs world_defs storage_defs parse_defs call0_def Let_def)
  then obtain w where e: "exec rejectedRun (initial Map.empty) = Some w"
    and f: "\<not> isActive (session w (js ''a''))"
    by (cases "exec rejectedRun (initial Map.empty)") auto
  have r: "reachable w" using reachable_initial e by (rule exec_reachable)
  from stop_while_idle[where w = w and sid = "js ''a''"] f r
  have g: "\<not> shouldStop (session w (js ''a''))" by blast
  from restartingWorld_restart have 3: "map_option (\<lambda>w. tasks w ! 0)
        (exec [(1, CallStop (js ''a'')), (2, CallStop (js ''a'')), (3, Resume 0 PollFired),
               (4, Resume 0 TimerFired), (5, Resume 0 StorageDone)] restartingWorld)
      = Some (StartPersisting (restoreCall (js ''a'') row0) (Supervisor 1) [js ''1'', js ''2''] 0)"
    by (cases "exec [(1, CallStop (js ''a'')), (2, CallStop (js ''a'')), (3, Resume 0 PollFired),
               (4, Resume 0 TimerFired), (5, Resume 0 StorageDone)] restartingWorld") auto
  from idle 1 tk(2) 2 3 e r f g show ?thesis by blast
qed

section \<open>The restart loop after an unexpected stop\<close>

lemma restart_next_eq:
  "restart_next sid n w =
     (emit [(sid, UnexpectedStop (n + 1) (restartWait (n + 1)), Warn)] w,
      if shouldStop (session w sid) then Ended
      else SupSleep sid (n + 1) (int (restartWait (n + 1)) * 1000))"
  by (simp add: restart_next_def restart_iter_def Let_def)

lemma emitLog_setTask: "emitLog l (setTask i t w) = setTask i t (emitLog l w)"
  by (simp add: emitLog_def setTask_def split_beta)

lemma emit_setTask: "emit lg (setTask i t w) = setTask i t (emit lg w)"
  by (induction lg arbitrary: w) (simp_all add: emit_Cons emitLog_setTask)

lemma restart_iteration_incomplete:
  assumes "i < length (tasks w)" "tasks w ! i = SupSleep sid n ms" "\<not> shouldStop (session w sid)"
    and "configs w sid = Some row" "userWantsActive row"
    and "cfgToken row = [] \<or> cfgMessage row = [] \<or> cfgChannelIds row = []"
  shows "exec [(t1, Resume i TimerFired), (t2, Resume i StorageDone)] w
    = Some (setTask i (SupSleep sid (n + 1) (int (restartWait (n + 1)) * 1000))
              (emit [(sid, AutoRestartWaiting, Warn),
                     (sid, UnexpectedStop (n + 1) (restartWait (n + 1)), Warn)] w))"
proof -
  let ?w1 = "setTask i (SupRead sid n) w"
  have 1: "step t1 (Resume i TimerFired) w = Some ?w1"
    using assms(1,2) by (simp add: step_def resume_def)
  have d: "restart_decide sid (getConfig (configs w) sid) = (Incomplete, [(sid, AutoRestartWaiting, Warn)])"
    using assms(4,5,6) by (auto simp: restart_decide_def getConfig_def)
  have e: "emit [(sid, UnexpectedStop (n + 1) (restartWait (n + 1)), Warn)]
             (emit [(sid, AutoRestartWaiting, Warn)] ?w1)
         = setTask i (SupRead sid n) (emit [(sid, AutoRestartWaiting, Warn),
                 (sid, UnexpectedStop (n + 1) (restartWait (n + 1)), Warn)] w)"
    by (simp add: emit_Cons emitLog_setTask)
  have r: "resume t2 StorageDone (SupRead sid n) ?w1
      = Some (setTask i (SupRead sid n) (emit [(sid, AutoRestartWaiting, Warn),
                 (sid, UnexpectedStop (n + 1) (restartWait (n + 1)), Warn)] w),
              SupSleep sid (n + 1) (int (restartWait (n + 1)) * 1000))"
    using assms(3) by (simp add: resume_def d restart_next_eq emit_Cons emitLog_setTask)
  have 2: "step t2 (Resume i StorageDone) ?w1
      = Some (setTask i (SupSleep sid (n + 1) (int (restartWait (n + 1)) * 1000))
              (emit [(sid, AutoRestartWaiting, Warn),
                     (sid, UnexpectedStop (n + 1) (restartWait (n + 1)), Warn)] w))"
    using assms(1) r by (simp add: step_def)
  from 1 2 show ?thesis by simp
qed


lemma restart_iterations:
  assumes "i < length (tasks w)" "tasks w ! i = SupSleep sid n ms" "\<not> shouldStop (session w sid)"
    and "configs w sid = Some row" "userWantsActive row"
    and "cfgToken row = [] \<or> cfgMessage row = [] \<or> cfgChannelIds row = []"
  shows "\<exists>w1. exec (concat (replicate k [(t1, Resume i TimerFired), (t2, Resume i StorageDone)])) w
              = Some w1
           \<and> length (tasks w1) = length (tasks w)
           \<and> tasks w1 ! i = SupSleep sid (n + k) (if k = 0 then ms else int (restartWait (n + k)) * 1000)
           \<and> configs w1 = configs w \<and> (\<forall>sid'. session w1 sid' = session w sid')
           \<and> logs w1 = logs w @ concat (map (\<lambda>j. [(sid, AutoRestartWaiting, Warn),
                   (sid, UnexpectedStop (n + j) (restartWait (n + j)), Warn)]) [1..<Suc k])"
proof (induction k)
  case 0
  with assms show ?case by simp
next
  case (Suc k)
  let ?it = "[(t1, Resume i TimerFired), (t2, Resume i StorageDone)]"
  from Suc obtain w1 where w1: "exec (concat (replicate k ?it)) w = Some w1"
    "length (tasks w1) = length (tasks w)"
    "tasks w1 ! i = SupSleep sid (n + k) (if k = 0 then ms else int (restartWait (n + k)) * 1000)"
    "configs w1 = configs w" "\<forall>sid'. session w1 sid' = session w sid'"
    "logs w1 = logs w @ concat (map (\<lambda>j. [(sid, AutoRestartWaiting, Warn),
                   (sid, UnexpectedStop (n + j) (restartWait (n + j)), Warn)]) [1..<Suc k])"
    by blast
  let ?w2 = "setTask i (SupSleep sid (n + k + 1) (int (restartWait (n + k + 1)) * 1000))
              (emit [(sid, AutoRestartWaiting, Warn),
                     (sid, UnexpectedStop (n + k + 1) (restartWait (n + k + 1)), Warn)] w1)"
  have i1: "i < length (tasks w1)" using assms(1) w1(2) by simp
  have f1: "\<not> shouldStop (session w1 sid)" using assms(3) w1(5) by simp
  have c1: "configs w1 sid = Some row" using assms(4) w1(4) by simp
  have e2: "exec ?it w1 = Some ?w2"
    by (rule restart_iteration_incomplete[OF i1 w1(3) f1 c1 assms(5) assms(6)])
  have r: "concat (replicate (Suc k) ?it) = concat (replicate k ?it) @ ?it"
  proof -
    have "replicate (Suc k) ?it = replicate k ?it @ [?it]" by (simp add: replicate_append_same)
    then show ?thesis by (simp del: replicate_Suc)
  qed
  have e: "exec (concat (replicate (Suc k) ?it)) w = Some ?w2"
    unfolding r using w1(1) e2 by (simp add: exec_append)
  have "length (tasks ?w2) = length (tasks w)" using w1(2) by simp
  moreover have "tasks ?w2 ! i = SupSleep sid (n + Suc k)
      (if Suc k = 0 then ms else int (restartWait (n + Suc k)) * 1000)"
    using i1 by simp
  moreover have "configs ?w2 = configs w" using w1(4) by simp
  moreover have "\<forall>sid'. session ?w2 sid' = session w sid'" using w1(5) by simp
  moreover have "logs ?w2 = logs w @ concat (map (\<lambda>j. [(sid, AutoRestartWaiting, Warn),
                   (sid, UnexpectedStop (n + j) (restartWait (n + j)), Warn)]) [1..<Suc (Suc k)])"
    using w1(6) by simp
  ultimately show ?case using e by blast
qed


lemma emit_two: "emit [a, b] w = emit [b] (emit [a] w)"
  by (simp add: emit_Cons)




section \<open>The counter of sent messages\<close>

lemma startSender_check_total:
  "totalSent (session (fst (startSender_check now c who w)) sid) = totalSent (session w sid)"
  by (simp add: startSender_check_def startSender_failed_def restart_next_eq startSender_commit_def
      Let_def split: sum.splits caller.splits)

lemma startSender_enter_total:
  "totalSent (session (fst (startSender_enter now c who w)) sid) = totalSent (session w sid)"
  by (simp add: startSender_enter_def Let_def startSender_check_total)

lemma startSender_waited_total:
  "totalSent (session (fst (startSender_waited now c who waited w)) sid) = totalSent (session w sid)"
  by (simp add: startSender_waited_def Let_def startSender_check_total)

lemma startSender_persisted_total:
  "totalSent (session (fst (startSender_persisted c who ids k w)) sid) = totalSent (session w sid)"
  by (simp add: startSender_persisted_def senderLoop_begin_def senderLoop_next_def
      senderLoop_launch_def Let_def)

lemma senderLoop_next_total:
  "totalSent (session (fst (senderLoop_next c ids names w)) sid) = totalSent (session w sid)"
  by (simp add: senderLoop_next_def senderLoop_launch_def Let_def)

lemma restart_next_total:
  "totalSent (session (fst (restart_next sid' n w)) sid) = totalSent (session w sid)"
  by (simp add: restart_next_eq)

lemma block_total:
  "startSender_waited now c who waited w = (w1, t1) \<Longrightarrow>
     totalSent (session w1 sid) = totalSent (session w sid)"
  "startSender_persisted c who ids k w = (w1, t1) \<Longrightarrow>
     totalSent (session w1 sid) = totalSent (session w sid)"
  "senderLoop_next c ids names w = (w1, t1) \<Longrightarrow>
     totalSent (session w1 sid) = totalSent (session w sid)"
  "restart_next sid' n w = (w1, t1) \<Longrightarrow> totalSent (session w1 sid) = totalSent (session w sid)"
  "startSender_enter now c who w = (w1, t1) \<Longrightarrow>
     totalSent (session w1 sid) = totalSent (session w sid)"
  using startSender_waited_total[of now c who waited w sid]
    startSender_persisted_total[of c who ids k w sid] senderLoop_next_total[of c ids names w sid]
    restart_next_total[of sid' n w sid] startSender_enter_total[of now c who w sid]
  by simp_all

lemma resume_total:
  assumes "resume now inp t w = Some (w1, t1)"
  shows "totalSent (session w1 sid) = totalSent (session w sid)"
proof (cases t)
  case (StartWaiting c who waited)
  with assms show ?thesis
    by (cases inp) (auto simp: resume_def dest: block_total[where sid = sid])
next
  case (StartPersisting c who ids k)
  with assms show ?thesis
    by (cases inp) (auto simp: resume_def dest: block_total[where sid = sid])
next
  case (Resolving c ids names)
  with assms show ?thesis
    by (cases inp) (auto simp: resume_def dest: block_total[where sid = sid])
next
  case (Joining c loops)
  with assms show ?thesis
    by (cases inp) (auto simp: resume_def split_beta Let_def senderLoop_join_def
        split: option.splits if_splits)
next
  case (SenderReturned sid' res)
  with assms show ?thesis
    by (cases inp) (auto simp: resume_def split_beta Let_def finalize_def)
next
  case (FinStatus sid' res uws)
  with assms show ?thesis
    by (cases inp) (auto simp: resume_def Let_def split: if_splits dest: block_total[where sid = sid])
next
  case (FinIntent sid')
  with assms show ?thesis by (cases inp) (auto simp: resume_def)
next
  case (SupSleep sid' n ms)
  with assms show ?thesis by (cases inp) (auto simp: resume_def)
next
  case (SupRead sid' n)
  with assms show ?thesis
    by (cases inp) (auto simp: resume_def Let_def split_beta split: restart_decision.splits
        dest: block_total[where sid = sid])
next
  case (StopPersisting sid')
  with assms show ?thesis by (cases inp) (auto simp: resume_def)
next
  case (IncReading sid')
  with assms show ?thesis by (cases inp) (auto simp: resume_def split: option.splits)
next
  case (IncWriting sid' existing)
  with assms show ?thesis by (cases inp) (auto simp: resume_def)
next
  case Ended
  with assms show ?thesis by (cases inp) (auto simp: resume_def)
qed

lemma channelLoop_fetched_total:
  "totalSent (session (fst (channelLoop_fetched c chName n r random w)) sid)
   = totalSent (session w sid)
     + (if cSid c = sid \<and> \<not> shouldStop (session w sid)
           \<and> sent (fst (sendOneMessage_response (cSid c) chName r)) then 1 else 0)"
  by (cases r)
    (auto simp: channelLoop_fetched_def channelLoop_body_def sendOneMessage_response_def
      split_beta Let_def)

lemma resume_loop_total:
  assumes "resume_loop c inp l w = Some (w1, l1, spawned)"
  shows "totalSent (session w1 sid)
   = totalSent (session w sid)
     + (if cSid c = sid \<and> \<not> shouldStop (session w sid)
           \<and> (case inp of
                 Fetched r random \<Rightarrow>
                   (case snd l of
                      Sending n \<Rightarrow> sent (fst (sendOneMessage_response sid (fst l) r))
                    | _ \<Rightarrow> False)
               | _ \<Rightarrow> False) then 1 else 0)"
proof (cases "snd l")
  case (Sending n)
  show ?thesis
  proof (cases inp)
    case (Fetched r random)
    with assms Sending have "w1 = fst (channelLoop_fetched c (fst l) n r random w)"
      by (simp add: resume_loop_def split_beta)
    with Sending Fetched show ?thesis using channelLoop_fetched_total[of c "fst l" n r random w sid]
      by auto
  qed (use assms Sending in \<open>simp_all add: resume_loop_def\<close>)
qed (use assms in \<open>cases inp; simp add: resume_loop_def\<close>)+

lemma totalSent_step:
  assumes "step now e w = Some w1" "\<not> seeds sid e"
  shows "totalSent (session w1 sid)
     = totalSent (session w sid) + (if sendCounted sid e w then 1 else 0)"
proof (cases e)
  case (CallStart c)
  with assms show ?thesis using startSender_enter_total[of now c External w sid]
    by (auto simp: step_def split_beta sendCounted_def sendAccepted_def)
next
  case (CallStop sid')
  have "totalSent (session (w\<lparr>sessions := fst (snd (stopSender_begin (sessions w) sid'))\<rparr>) sid)
      = totalSent (session w sid)"
    by (simp add: stopSender_begin_world)
  with CallStop assms show ?thesis
    by (auto simp: step_def split_beta sendCounted_def sendAccepted_def)
next
  case (StopAllVisit sid')
  with assms obtain s where s: "sessions w sid' = Some s"
    and w1: "w1 = (if isActive s
        then addTasks [StopPersisting sid'] (putSession sid' (s\<lparr>shouldStop := True\<rparr>) w) else w)"
    by (auto simp: step_def split: option.splits if_splits)
  from s have "session w sid' = s" by (simp add: session_def getSession_def)
  with w1 StopAllVisit show ?thesis by (auto simp: sendCounted_def sendAccepted_def)
next
  case (RestoreVisit sid' config)
  with assms have ne: "sid' \<noteq> sid" by (simp add: seeds_def)
  show ?thesis
  proof (cases "\<not> userWantsActive config \<or> cfgToken config = [] \<or> cfgMessage config = [] \<or>
             cfgChannelIds config = [] \<or> sid' = []")
    case True
    with RestoreVisit assms show ?thesis
      by (auto simp: step_def sendCounted_def sendAccepted_def)
  next
    case False
    define w3 where "w3 = emit [(sid', PreviousSession, Success)]
      (putSession sid' ((session (touch sid' w) sid')\<lparr>totalSent := cfgTotalSent config\<rparr>) (touch sid' w))"
    from False RestoreVisit assms
    have "w1 = addTasks [snd (startSender_enter now (restoreCall sid' config) External w3)]
                 (fst (startSender_enter now (restoreCall sid' config) External w3))"
      by (simp add: step_def Let_def split_beta w3_def)
    moreover have "totalSent (session w3 sid) = totalSent (session w sid)"
      using ne by (simp add: w3_def)
    ultimately show ?thesis using RestoreVisit
      by (simp add: startSender_enter_total sendCounted_def sendAccepted_def)
  qed
next
  case (CallGetStatus sid')
  have "w\<lparr>sessions := snd (getStatus (sessions w) sid')\<rparr> = touch sid' w"
    by (simp add: getStatus_def touch_def split_beta)
  with CallGetStatus assms show ?thesis
    by (auto simp: step_def sendCounted_def sendAccepted_def)
next
  case (ConfigEdit sid' row)
  with assms show ?thesis by (auto simp: step_def sendCounted_def sendAccepted_def)
next
  case (Resume i inp)
  with assms show ?thesis using resume_total[of now inp "tasks w ! i" w _ _ sid]
    by (auto simp: step_def sendCounted_def sendAccepted_def split: if_splits option.splits)
next
  case (ResumeLoop i j inp)
  with assms obtain c loops where i: "i < length (tasks w)" and t: "tasks w ! i = Joining c loops"
    and j: "j < length loops"
    by (cases "tasks w ! i") (auto simp: step_def split: if_splits)
  with assms ResumeLoop obtain w2 l sp where r: "resume_loop c inp (loops ! j) w = Some (w2, l, sp)"
    and w1: "w1 = addTasks sp (setTask i (Joining c (loops[j := l])) w2)"
    by (auto simp: step_def split: option.splits)
  have "sendCounted sid e w \<longleftrightarrow>
      (cSid c = sid \<and> \<not> shouldStop (session w sid)
           \<and> (case inp of
                 Fetched r random \<Rightarrow>
                   (case snd (loops ! j) of
                      Sending n \<Rightarrow> sent (fst (sendOneMessage_response sid (fst (loops ! j)) r))
                    | _ \<Rightarrow> False)
               | _ \<Rightarrow> False))"
    using ResumeLoop i t j by (auto simp: sendCounted_def sendAccepted_def split: input.splits)
  with resume_loop_total[OF r, of sid] w1 show ?thesis by simp
qed


lemma counted_le_accepted: "counted sid evs w \<le> accepted sid evs w"
proof (induction evs arbitrary: w)
  case Nil
  then show ?case by simp
next
  case (Cons a evs)
  obtain now e where a: "a = (now, e)" by (cases a)
  show ?case
  proof (cases "step now e w")
    case None
    with a show ?thesis by simp
  next
    case (Some w1)
    from Cons.IH[of w1] have "counted sid evs w1 \<le> accepted sid evs w1" .
    with Some a show ?thesis by (simp add: sendCounted_def)
  qed
qed

lemma totalSent_exec:
  assumes "exec evs w = Some w2" "list_all (\<lambda>p. \<not> seeds sid (snd p)) evs"
  shows "totalSent (session w2 sid) = totalSent (session w sid) + int (counted sid evs w)"
  using assms
proof (induction evs arbitrary: w)
  case Nil
  then show ?case by simp
next
  case (Cons a evs)
  obtain now e where a: "a = (now, e)" by (cases a)
  with Cons.prems obtain w1 where s: "step now e w = Some w1" and x: "exec evs w1 = Some w2"
    by (cases "step now e w") auto
  from Cons.prems a have n: "\<not> seeds sid e" and l: "list_all (\<lambda>p. \<not> seeds sid (snd p)) evs" by simp_all
  from totalSent_step[OF s n] Cons.IH[OF x l] a s show ?case by simp
qed

lemma sent_response:
  "sent (fst (sendOneMessage_response sid chName r)) \<Longrightarrow>
     cooldownMs (fst (sendOneMessage_response sid chName r)) = 0
     \<and> snd (sendOneMessage_response sid chName r) = []"
  by (cases r) (auto simp: sendOneMessage_response_def Let_def split: if_splits)

lemma counted_spawns:
  assumes "step now e w = Some w1" "sendCounted sid e w"
  shows "tasks w1 = butlast (tasks w1) @ [IncReading sid] \<and> length (tasks w1) = length (tasks w) + 1"
proof -
  from assms(2) obtain i j r random c loops n where e: "e = ResumeLoop i j (Fetched r random)"
    and i: "i < length (tasks w)" and t: "tasks w ! i = Joining c loops" and c: "cSid c = sid"
    and j: "j < length loops" and l: "snd (loops ! j) = Sending n"
    and s: "sent (fst (sendOneMessage_response sid (fst (loops ! j)) r))"
    and f: "\<not> shouldStop (session w sid)"
    by (auto simp: sendCounted_def sendAccepted_def split: event.splits input.splits task.splits
        loop_pc.splits)
  from sent_response[OF s] s f c
  have "snd (snd (channelLoop_fetched c (fst (loops ! j)) n r random w)) = [IncReading sid]"
    and "tasks (fst (channelLoop_fetched c (fst (loops ! j)) n r random w)) = tasks w"
    by (simp_all add: channelLoop_fetched_def channelLoop_body_def split_beta Let_def)
  with assms(1) e i t j l show ?thesis
    by (auto simp: step_def resume_loop_def split_beta)
qed

text \<open>
  Claim C5. Each send that is answered with success and whose result the loop examines with
  the cancellation flag clear adds exactly one to the \<^verbatim>\<open>totalSent\<close> of its session in
  memory and calls \<^verbatim>\<open>incrementSent\<close> once, and apart from the seeding by
  \<^verbatim>\<open>restoreAllSessions\<close> no other event changes that counter: along any run, however the
  loops and the other activities interleave, the counter grows by the number of counted
  sends, which is at most the number of accepted sends.
\<close>

theorem counter_counts_examined_sends:
  "(step now e w = Some w1 \<and> \<not> seeds sid e \<longrightarrow>
      totalSent (session w1 sid) = totalSent (session w sid) + (if sendCounted sid e w then 1 else 0))
   \<and> (step now e w = Some w1 \<and> sendCounted sid e w \<longrightarrow>
      tasks w1 = butlast (tasks w1) @ [IncReading sid] \<and> length (tasks w1) = length (tasks w) + 1)
   \<and> (exec evs w = Some w2 \<and> list_all (\<lambda>p. \<not> seeds sid (snd p)) evs \<longrightarrow>
      totalSent (session w2 sid) = totalSent (session w sid) + int (counted sid evs w)
      \<and> counted sid evs w \<le> accepted sid evs w)"
proof (intro conjI impI allI)
  assume "step now e w = Some w1 \<and> \<not> seeds sid e"
  then show "totalSent (session w1 sid)
      = totalSent (session w sid) + (if sendCounted sid e w then 1 else 0)"
    using totalSent_step[of now e w w1 sid] by blast
next
  assume a: "step now e w = Some w1 \<and> sendCounted sid e w"
  then show "tasks w1 = butlast (tasks w1) @ [IncReading sid]"
    using counted_spawns[of now e w w1 sid] by blast
  from a show "length (tasks w1) = length (tasks w) + 1"
    using counted_spawns[of now e w w1 sid] by blast
next
  assume "exec evs w = Some w2 \<and> list_all (\<lambda>p. \<not> seeds sid (snd p)) evs"
  then show "totalSent (session w2 sid) = totalSent (session w sid) + int (counted sid evs w)"
    using totalSent_exec[of evs w w2 sid] by blast
  show "counted sid evs w \<le> accepted sid evs w" by (rule counted_le_accepted)
qed

lemmas run_defs = launch_def block_defs world_defs storage_defs parse_defs call0_def row0_def Let_def

lemma lostUpdate_run:
  "map_option (\<lambda>w. (totalSent (session w (js ''a'')), map_option cfgTotalSent (configs w (js ''a''))))
     (exec lostUpdate (initial [js ''a'' \<mapsto> row0])) = Some (2, Some 1)"
  by (simp add: lostUpdate_def run_defs)

lemma droppedSend_run:
  "map_option (\<lambda>w. totalSent (session w (js ''a''))) (exec droppedSend (initial [js ''a'' \<mapsto> row0]))
     = Some 0"
  by (simp add: droppedSend_def run_defs)

lemma lostUpdate_accepted: "accepted (js ''a'') lostUpdate (initial [js ''a'' \<mapsto> row0]) = 2"
  by (simp add: lostUpdate_def sendAccepted_def run_defs)

lemma droppedSend_accepted: "accepted (js ''a'') droppedSend (initial [js ''a'' \<mapsto> row0]) = 1"
  by (simp add: droppedSend_def sendAccepted_def run_defs)


lemma lostUpdate_counted: "counted (js ''a'') lostUpdate (initial [js ''a'' \<mapsto> row0]) = 2"
  by (simp add: lostUpdate_def sendCounted_def sendAccepted_def run_defs)

lemma droppedSend_counted: "counted (js ''a'') droppedSend (initial [js ''a'' \<mapsto> row0]) = 0"
  by (simp add: droppedSend_def sendCounted_def sendAccepted_def run_defs)

lemma launch_run:
  "map_option (\<lambda>w. (tasks w, shouldStop (session w (js ''a'')), totalSent (session w (js ''a''))))
     (exec launch (initial [js ''a'' \<mapsto> row0]))
   = Some ([Joining call0 [(js ''general'', Sending 0), (js ''2'', Sending 0)]], False, 0)"
  by (simp add: run_defs)

theorem counter_counts_examined_sends_witness:
  "(\<exists>w2. exec lostUpdate (initial [js ''a'' \<mapsto> row0]) = Some w2
      \<and> totalSent (session w2 (js ''a'')) = 2
      \<and> counted (js ''a'') lostUpdate (initial [js ''a'' \<mapsto> row0]) = 2
      \<and> accepted (js ''a'') lostUpdate (initial [js ''a'' \<mapsto> row0]) = 2)
   \<and> (\<exists>w2. exec droppedSend (initial [js ''a'' \<mapsto> row0]) = Some w2
      \<and> totalSent (session w2 (js ''a'')) = 0
      \<and> counted (js ''a'') droppedSend (initial [js ''a'' \<mapsto> row0]) = 0
      \<and> accepted (js ''a'') droppedSend (initial [js ''a'' \<mapsto> row0]) = 1)
   \<and> (\<exists>w w1. exec launch (initial [js ''a'' \<mapsto> row0]) = Some w
      \<and> step 108 (ResumeLoop 0 0 (Fetched (HttpResponse 200 None) (1 / 2))) w = Some w1
      \<and> sendCounted (js ''a'') (ResumeLoop 0 0 (Fetched (HttpResponse 200 None) (1 / 2))) w
      \<and> totalSent (session w (js ''a'')) = 0 \<and> totalSent (session w1 (js ''a'')) = 1
      \<and> length (tasks w1) = 2 \<and> tasks w1 ! 1 = IncReading (js ''a''))"
proof -
  let ?a = "js ''a''"
  let ?w0 = "initial [?a \<mapsto> row0]"
  have n1: "list_all (\<lambda>p. \<not> seeds ?a (snd p)) lostUpdate"
    and n2: "list_all (\<lambda>p. \<not> seeds ?a (snd p)) droppedSend"
    by (simp_all add: lostUpdate_def droppedSend_def launch_def seeds_def)
  have z: "totalSent (session ?w0 ?a) = 0"
    by (simp add: initial_def session_def getSession_def newSession_def)
  from lostUpdate_run obtain w2 where e1: "exec lostUpdate ?w0 = Some w2"
    by (cases "exec lostUpdate ?w0") auto
  from counter_counts_examined_sends[where evs = lostUpdate and w = ?w0 and ?w2.0 = w2 and sid = ?a]
    e1 n1
  have "totalSent (session w2 ?a) = totalSent (session ?w0 ?a) + int (counted ?a lostUpdate ?w0)"
    by blast
  with z lostUpdate_counted have t1: "totalSent (session w2 ?a) = 2" by simp
  from e1 t1 lostUpdate_counted lostUpdate_accepted
  have 1: "\<exists>w2. exec lostUpdate ?w0 = Some w2 \<and> totalSent (session w2 ?a) = 2
      \<and> counted ?a lostUpdate ?w0 = 2 \<and> accepted ?a lostUpdate ?w0 = 2"
    by blast
  from droppedSend_run obtain w3 where e2: "exec droppedSend ?w0 = Some w3"
    by (cases "exec droppedSend ?w0") auto
  from counter_counts_examined_sends[where evs = droppedSend and w = ?w0 and ?w2.0 = w3 and sid = ?a]
    e2 n2
  have "totalSent (session w3 ?a) = totalSent (session ?w0 ?a) + int (counted ?a droppedSend ?w0)"
    by blast
  with z droppedSend_counted have t2: "totalSent (session w3 ?a) = 0" by simp
  from e2 t2 droppedSend_counted droppedSend_accepted
  have 2: "\<exists>w2. exec droppedSend ?w0 = Some w2 \<and> totalSent (session w2 ?a) = 0
      \<and> counted ?a droppedSend ?w0 = 0 \<and> accepted ?a droppedSend ?w0 = 1"
    by blast
  let ?e = "ResumeLoop 0 0 (Fetched (HttpResponse 200 None) (1 / 2))"
  let ?loops = "[(js ''general'', Sending 0), (js ''2'', Sending 0)]"
  from launch_run obtain w where e3: "exec launch ?w0 = Some w"
    and tw: "tasks w = [Joining call0 ?loops]" and f: "\<not> shouldStop (session w ?a)"
    and t0: "totalSent (session w ?a) = 0"
    by (cases "exec launch ?w0") auto
  have sid: "cSid call0 = ?a" by (simp add: call0_def)
  have sc: "sendCounted ?a ?e w"
    using tw f sid by (simp add: sendCounted_def sendAccepted_def sendOneMessage_response_def responseOk_def)
  obtain w1 where s: "step 108 ?e w = Some w1"
    using tw by (simp add: step_def resume_loop_def split_beta)
  have ns: "\<not> seeds ?a ?e" by (simp add: seeds_def)
  note th = counter_counts_examined_sends[where now = 108 and e = ?e and w = w and ?w1.0 = w1
      and sid = ?a]
  from th s ns sc t0 have t3: "totalSent (session w1 ?a) = 1" by simp
  from th s sc have sp: "tasks w1 = butlast (tasks w1) @ [IncReading ?a]"
    and ln: "length (tasks w1) = length (tasks w) + 1"
    by blast+
  from ln tw have l2: "length (tasks w1) = 2" by simp
  then have "butlast (tasks w1) @ [IncReading ?a] = [hd (tasks w1), IncReading ?a]"
    by (cases "tasks w1"; cases "tl (tasks w1)") auto
  with sp have "tasks w1 ! 1 = IncReading ?a" by (metis One_nat_def nth_Cons_0 nth_Cons_Suc)
  with e3 s sc t0 t3 l2
  have 3: "\<exists>w w1. exec launch ?w0 = Some w \<and> step 108 ?e w = Some w1 \<and> sendCounted ?a ?e w
      \<and> totalSent (session w ?a) = 0 \<and> totalSent (session w1 ?a) = 1
      \<and> length (tasks w1) = 2 \<and> tasks w1 ! 1 = IncReading ?a"
    by blast
  from 1 2 3 show ?thesis by blast
qed

text \<open>
  The claim as stated counts every successful send. A send answered with a 200 after the stop
  was asked for leaves the counter at 0; and when two loops send at about the same time, both
  calls of \<^verbatim>\<open>incrementSent\<close> read the total 0 and both write 1, so the stored total is 1
  after two sends that the counter in memory has counted.
\<close>

theorem successful_sends_uncounted:
  "accepted (js ''a'') droppedSend (initial [js ''a'' \<mapsto> row0]) = 1
   \<and> map_option (\<lambda>w. totalSent (session w (js ''a'')))
        (exec droppedSend (initial [js ''a'' \<mapsto> row0])) = Some 0
   \<and> accepted (js ''a'') lostUpdate (initial [js ''a'' \<mapsto> row0]) = 2
   \<and> map_option (\<lambda>w. (totalSent (session w (js ''a'')), map_option cfgTotalSent (configs w (js ''a''))))
        (exec lostUpdate (initial [js ''a'' \<mapsto> row0])) = Some (2, Some 1)"
  using droppedSend_accepted droppedSend_run lostUpdate_accepted lostUpdate_run by simp

section \<open>A rejected token while another loop is sending\<close>

lemma delivery_round:
  assumes t: "tasks w ! 0 = Joining call0 [(n0, Finished TokenInvalid), (n1, Sending 0)]"
    and ne: "tasks w \<noteq> []"
    and f: "\<not> shouldStop (session w (js ''a''))"
  shows "\<exists>w1. exec [(t1, ResumeLoop 0 1 (Fetched (HttpResponse 200 None) (1 / 2))),
                   (t2, ResumeLoop 0 1 PollFired), (t3, ResumeLoop 0 1 TimerFired)] w = Some w1
     \<and> tasks w1 ! 0 = Joining call0 [(n0, Finished TokenInvalid), (n1, Sending 0)]
     \<and> tasks w1 \<noteq> []
     \<and> session w1 (js ''a'') = (session w (js ''a''))\<lparr>totalSent := totalSent (session w (js ''a'')) + 1\<rparr>
     \<and> configs w1 = configs w
     \<and> logs w1 = logs w @ [(js ''a'', Delivered n1 (totalSent (session w (js ''a'')) + 1), Success)]"
proof -
  let ?a = "js ''a''"
  let ?s = "(session w ?a)\<lparr>totalSent := totalSent (session w ?a) + 1\<rparr>"
  let ?J = "\<lambda>pc. Joining call0 [(n0, Finished TokenInvalid), (n1, pc)]"
  define wa where "wa = emit [(?a, Delivered n1 (totalSent (session w ?a) + 1), Success)]
      (putSession ?a ?s w)"
  define w1 where "w1 = addTasks [IncReading ?a] (setTask 0 (?J (Sleeping 0 10000)) wa)"
  have sid: "cSid call0 = ?a" and d: "cDelay call0 = 10" by (simp_all add: call0_def)
  from ne have l: "0 < length (tasks w)" by simp
  have s1: "step t1 (ResumeLoop 0 1 (Fetched (HttpResponse 200 None) (1 / 2))) w = Some w1"
    using t l f sid d
    by (simp add: step_def resume_loop_def channelLoop_fetched_def channelLoop_body_def
        sendOneMessage_response_def responseOk_def rand_def interruptibleSleep_begin_def Let_def
        w1_def wa_def)
  have tw: "tasks w1 ! 0 = ?J (Sleeping 0 10000)" and lw: "0 < length (tasks w1)"
    and sw: "session w1 ?a = ?s"
    using l by (simp_all add: w1_def wa_def nth_append)
  have s2: "step t2 (ResumeLoop 0 1 PollFired) w1 = Some (setTask 0 (?J (Sleeping 0 10000)) w1)"
    using tw lw sw f sid
    by (simp add: step_def resume_loop_def interruptibleSleep_poll_def addTasks_def)
  let ?w2 = "setTask 0 (?J (Sleeping 0 10000)) w1"
  have s3: "step t3 (ResumeLoop 0 1 TimerFired) ?w2 = Some (setTask 0 (?J (Sending 0)) ?w2)"
    using lw sw f sid
    by (simp add: step_def resume_loop_def channelLoop_top_def addTasks_def)
  let ?w3 = "setTask 0 (?J (Sending 0)) ?w2"
  from s1 s2 s3 have "exec [(t1, ResumeLoop 0 1 (Fetched (HttpResponse 200 None) (1 / 2))),
                   (t2, ResumeLoop 0 1 PollFired), (t3, ResumeLoop 0 1 TimerFired)] w = Some ?w3"
    by simp
  moreover have "tasks ?w3 ! 0 = ?J (Sending 0)" "tasks ?w3 \<noteq> []" using lw by auto
  moreover have "session ?w3 ?a = ?s" using sw by simp
  moreover have "configs ?w3 = configs w"
    "logs ?w3 = logs w @ [(?a, Delivered n1 (totalSent (session w ?a) + 1), Success)]"
    by (simp_all add: w1_def wa_def addTasks_def)
  ultimately show ?thesis by blast
qed


lemma deliveries_Suc:
  "deliveries (Suc k) = deliveries k @
     [(109 + 3 * int k, ResumeLoop 0 1 (Fetched (HttpResponse 200 None) (1 / 2))),
      (110 + 3 * int k, ResumeLoop 0 1 PollFired), (111 + 3 * int k, ResumeLoop 0 1 TimerFired)]"
  by (simp add: deliveries_def)

lemma deliveries_run:
  assumes t: "tasks w ! 0 = Joining call0 [(n0, Finished TokenInvalid), (n1, Sending 0)]"
    and ne: "tasks w \<noteq> []"
    and f: "\<not> shouldStop (session w (js ''a''))"
  shows "\<exists>w1. exec (deliveries k) w = Some w1
     \<and> tasks w1 ! 0 = Joining call0 [(n0, Finished TokenInvalid), (n1, Sending 0)]
     \<and> tasks w1 \<noteq> []
     \<and> session w1 (js ''a'') = (session w (js ''a''))\<lparr>totalSent := totalSent (session w (js ''a'')) + int k\<rparr>
     \<and> configs w1 = configs w
     \<and> logs w1 = logs w @ map (\<lambda>j. (js ''a'', Delivered n1 (totalSent (session w (js ''a'')) + int j + 1), Success)) [0..<k]"
proof (induction k)
  case 0
  from t ne show ?case by (simp add: deliveries_def)
next
  case (Suc k)
  let ?a = "js ''a''"
  from Suc obtain w1 where e: "exec (deliveries k) w = Some w1"
    and t1: "tasks w1 ! 0 = Joining call0 [(n0, Finished TokenInvalid), (n1, Sending 0)]"
    and ne1: "tasks w1 \<noteq> []"
    and s1: "session w1 ?a = (session w ?a)\<lparr>totalSent := totalSent (session w ?a) + int k\<rparr>"
    and c1: "configs w1 = configs w"
    and l1: "logs w1 = logs w @ map (\<lambda>j. (?a, Delivered n1 (totalSent (session w ?a) + int j + 1), Success)) [0..<k]"
    by blast
  from s1 f have f1: "\<not> shouldStop (session w1 ?a)" by simp
  from delivery_round[OF t1 ne1 f1, of "109 + 3 * int k" "110 + 3 * int k" "111 + 3 * int k"]
  obtain w2 where e2: "exec [(109 + 3 * int k, ResumeLoop 0 1 (Fetched (HttpResponse 200 None) (1 / 2))),
      (110 + 3 * int k, ResumeLoop 0 1 PollFired), (111 + 3 * int k, ResumeLoop 0 1 TimerFired)] w1 = Some w2"
    and t2: "tasks w2 ! 0 = Joining call0 [(n0, Finished TokenInvalid), (n1, Sending 0)]"
    and ne2: "tasks w2 \<noteq> []"
    and s2: "session w2 ?a = (session w1 ?a)\<lparr>totalSent := totalSent (session w1 ?a) + 1\<rparr>"
    and c2: "configs w2 = configs w1"
    and l2: "logs w2 = logs w1 @ [(?a, Delivered n1 (totalSent (session w1 ?a) + 1), Success)]"
    by blast
  from e e2 have "exec (deliveries (Suc k)) w = Some w2"
    unfolding deliveries_Suc by (simp add: exec_append)
  moreover from s1 s2 have "session w2 ?a
      = (session w ?a)\<lparr>totalSent := totalSent (session w ?a) + int (Suc k)\<rparr>"
    by (simp add: add.assoc)
  moreover from l1 l2 s1 have "logs w2 = logs w @ map (\<lambda>j. (?a, Delivered n1 (totalSent (session w ?a) + int j + 1), Success)) [0..<Suc k]"
    by simp
  ultimately show ?case using t2 ne2 c1 c2 by auto
qed

lemma rejected_first:
  "map_option (\<lambda>w. (tasks w, session w (js ''a''), map_option userWantsActive (configs w (js ''a'')),
        (js ''a'', TokenInvalidNotice, Error) \<in> set (logs w)))
     (exec (take 9 rejectedRun) (initial [js ''a'' \<mapsto> row0]))
   = Some ([Joining call0 [(js ''general'', Finished TokenInvalid), (js ''2'', Sending 0)]],
           \<lparr>isActive = True, totalSent = 0, activeThreads = 2, startTime = Some 100,
              shouldStop = False, sessionId = js ''a''\<rparr>, Some True, False)"
  by (simp add: rejectedRun_def block_defs world_defs storage_defs parse_defs call0_def row0_def Let_def)

text \<open>
  Claim C1. The claim has the cancellation flag forced, when a loop has returned
  \<^verbatim>\<open>token_invalid\<close>, so that the loops that are still running wind down, and the run end
  with the outcome \<^verbatim>\<open>token_invalid\<close>, the intent written as false and the error line
  emitted. \<^verbatim>\<open>senderLoop\<close> sets the flag in the continuation of \<^verbatim>\<open>Promise.all\<close>, which runs
  when every loop has returned, so the assignment reaches no loop. In the run with two
  destinations whose first loop has been answered 401, the second loop goes on for any
  number \<open>k\<close> of deliveries: after them it is in its next request, the continuation of
  \<^verbatim>\<open>Promise.all\<close> cannot run, the session is active with its flag clear and \<open>k\<close> messages
  counted, the intent of the row is still true, and the error line has not been emitted.
\<close>

theorem token_invalid_leaves_loop_sending:
  "\<exists>w. exec (take 9 rejectedRun @ deliveries k) (initial [js ''a'' \<mapsto> row0]) = Some w
     \<and> tasks w ! 0 = Joining call0 [(js ''general'', Finished TokenInvalid), (js ''2'', Sending 0)]
     \<and> exec [(t, Resume 0 Continue)] w = None
     \<and> isActive (session w (js ''a'')) \<and> \<not> shouldStop (session w (js ''a''))
     \<and> totalSent (session w (js ''a'')) = int k
     \<and> map_option userWantsActive (configs w (js ''a'')) = Some True
     \<and> (js ''a'', TokenInvalidNotice, Error) \<notin> set (logs w)"
proof -
  let ?a = "js ''a''"
  let ?J = "Joining call0 [(js ''general'', Finished TokenInvalid), (js ''2'', Sending 0)]"
  from rejected_first obtain w0 where e0: "exec (take 9 rejectedRun) (initial [?a \<mapsto> row0]) = Some w0"
    and t0: "tasks w0 = [?J]"
    and s0: "session w0 ?a = \<lparr>isActive = True, totalSent = 0, activeThreads = 2, startTime = Some 100,
              shouldStop = False, sessionId = ?a\<rparr>"
    and c0: "map_option userWantsActive (configs w0 ?a) = Some True"
    and l0: "(?a, TokenInvalidNotice, Error) \<notin> set (logs w0)"
    by (cases "exec (take 9 rejectedRun) (initial [?a \<mapsto> row0])") auto
  from t0 have t0': "tasks w0 ! 0 = ?J" "tasks w0 \<noteq> []" by simp_all
  from s0 have f0: "\<not> shouldStop (session w0 ?a)" by simp
  from deliveries_run[OF t0' f0, of k] obtain w where e: "exec (deliveries k) w0 = Some w"
    and tw: "tasks w ! 0 = ?J" and ne: "tasks w \<noteq> []"
    and sw: "session w ?a = (session w0 ?a)\<lparr>totalSent := totalSent (session w0 ?a) + int k\<rparr>"
    and cw: "configs w = configs w0"
    and lw: "logs w = logs w0 @ map (\<lambda>j. (?a, Delivered (js ''2'') (totalSent (session w0 ?a) + int j + 1), Success)) [0..<k]"
    by blast
  from e0 e have "exec (take 9 rejectedRun @ deliveries k) (initial [?a \<mapsto> row0]) = Some w"
    by (simp add: exec_append)
  moreover from tw ne have "exec [(t, Resume 0 Continue)] w = None"
    by (simp add: step_def resume_def results_def loopResult_def)
  moreover from sw s0 have "isActive (session w ?a)" "\<not> shouldStop (session w ?a)"
    "totalSent (session w ?a) = int k"
    by simp_all
  moreover from cw c0 have "map_option userWantsActive (configs w ?a) = Some True" by simp
  moreover from lw l0 have "(?a, TokenInvalidNotice, Error) \<notin> set (logs w)" by auto
  ultimately show ?thesis using tw by blast
qed

text \<open>
  What the flag does once it is set, here by a stop: the sleeping loop returns at the next
  check of its sleep, or at its timer, and the run ends with the outcome \<^verbatim>\<open>token_invalid\<close>.
\<close>

lemma windDown_run:
  "map_option (\<lambda>w. (tasks w ! 0, isActive (session w (js ''a'')), totalSent (session w (js ''a'')),
        map_option userWantsActive (configs w (js ''a'')), last (logs w)))
     (exec (windDown PollFired) (initial [js ''a'' \<mapsto> row0]))
   = Some (Ended, False, 1, Some False, (js ''a'', TokenInvalidNotice, Error))"
  "map_option (\<lambda>w. (tasks w ! 0, isActive (session w (js ''a'')), totalSent (session w (js ''a'')),
        map_option userWantsActive (configs w (js ''a'')), last (logs w)))
     (exec (windDown TimerFired) (initial [js ''a'' \<mapsto> row0]))
   = Some (Ended, False, 1, Some False, (js ''a'', TokenInvalidNotice, Error))"
  by (simp_all add: windDown_def rejectedRun_def block_defs world_defs storage_defs parse_defs
      call0_def row0_def Let_def)

theorem token_invalid_leaves_loop_sending_witness:
  "map_option (\<lambda>w. (tasks w ! 0, isActive (session w (js ''a'')), shouldStop (session w (js ''a'')),
        totalSent (session w (js ''a'')), map_option userWantsActive (configs w (js ''a''))))
     (exec (take 9 rejectedRun @ deliveries 3) (initial [js ''a'' \<mapsto> row0]))
   = Some (Joining call0 [(js ''general'', Finished TokenInvalid), (js ''2'', Sending 0)],
           True, False, 3, Some True)
   \<and> map_option logs (exec (take 9 rejectedRun @ deliveries 3) (initial [js ''a'' \<mapsto> row0]))
     = Some [(js ''a'', SystemInitialized, Success), (js ''a'', ConfigLine 2 10, Info),
             (js ''a'', ResolvedChannels [js ''general'', []], Info),
             (js ''a'', SenderActive 2 10, Success),
             (js ''a'', Delivered (js ''2'') 1, Success), (js ''a'', Delivered (js ''2'') 2, Success),
             (js ''a'', Delivered (js ''2'') 3, Success)]
   \<and> Option.bind (exec (take 9 rejectedRun @ deliveries 3) (initial [js ''a'' \<mapsto> row0]))
        (exec [(120, Resume 0 Continue)]) = None
   \<and> map_option (\<lambda>w. (tasks w ! 0, isActive (session w (js ''a'')), totalSent (session w (js ''a'')),
          map_option userWantsActive (configs w (js ''a'')), last (logs w)))
        (exec (windDown PollFired) (initial [js ''a'' \<mapsto> row0]))
      = Some (Ended, False, 1, Some False, (js ''a'', TokenInvalidNotice, Error))
   \<and> map_option (\<lambda>w. (tasks w ! 0, isActive (session w (js ''a'')), totalSent (session w (js ''a'')),
          map_option userWantsActive (configs w (js ''a'')), last (logs w)))
        (exec (windDown TimerFired) (initial [js ''a'' \<mapsto> row0]))
      = Some (Ended, False, 1, Some False, (js ''a'', TokenInvalidNotice, Error))"
proof -
  let ?a = "js ''a''"
  let ?r = "exec (take 9 rejectedRun @ deliveries 3) (initial [?a \<mapsto> row0])"
  from token_invalid_leaves_loop_sending[of 3 120] obtain w where e: "?r = Some w"
    and tw: "tasks w ! 0 = Joining call0 [(js ''general'', Finished TokenInvalid), (js ''2'', Sending 0)]"
    and j: "exec [(120, Resume 0 Continue)] w = None"
    and s: "isActive (session w ?a)" "\<not> shouldStop (session w ?a)" "totalSent (session w ?a) = 3"
    and c: "map_option userWantsActive (configs w ?a) = Some True"
    by auto
  have u: "[0..<3] = [0, 1, Suc 1]" by (simp add: numeral_3_eq_3 upt_rec)
  have l: "map_option logs ?r
     = Some [(?a, SystemInitialized, Success), (?a, ConfigLine 2 10, Info),
             (?a, ResolvedChannels [js ''general'', []], Info),
             (?a, SenderActive 2 10, Success),
             (?a, Delivered (js ''2'') 1, Success), (?a, Delivered (js ''2'') 2, Success),
             (?a, Delivered (js ''2'') 3, Success)]"
    by (simp add: deliveries_def u rejectedRun_def block_defs world_defs storage_defs parse_defs
        call0_def row0_def Let_def)
  from e tw j s c l windDown_run show ?thesis by simp
qed

end
